theory Spec2Isabelle
  imports Complex_Main "HOL-Library.Sublist" "HOL-Library.Multiset"
begin

section \<open>Data model\<close>

text \<open>
  The data table component of \<^verbatim>\<open>HW1/challenge2\<close> exists in three revisions
  (\<^verbatim>\<open>v2-results/DataTable.tsx\<close>, \<^verbatim>\<open>v3-results/DataTable.tsx\<close> and
  \<^verbatim>\<open>v4-results/src/components/DataTable.tsx\<close>). The state machine below is the one of
  the last revision (v4); the filter of v2 and v3, the \<^verbatim>\<open>stableSort\<close> helper of v2 and the
  comparator of v3 are embedded next to it, under the names they have in the source.

  A field value is a JavaScript primitive. Numbers are restricted to integers (all numeric
  columns of the repository's data sets are integer-valued, and far below the size at which
  \<^verbatim>\<open>String\<close> switches to an exponent), so \<^verbatim>\<open>NaN\<close>, infinities and fractions are outside
  the model. Strings are ASCII strings: case folding and white space are the ASCII ones.
\<close>

datatype jsval = Undefined | Null | Num int | Str string

text \<open>A row is an object; reading a property that is absent yields \<^verbatim>\<open>undefined\<close>.\<close>

type_synonym row = "(string \<times> jsval) list"

definition field :: "row \<Rightarrow> string \<Rightarrow> jsval" where
  "field r k = (case map_of r k of None \<Rightarrow> Undefined | Some v \<Rightarrow> v)"

text \<open>
  \<^verbatim>\<open>interface Column<T> { key; header; sortable?; render? }\<close>. The optional \<^verbatim>\<open>sortable\<close>
  flag is \<open>None\<close> when absent. \<^verbatim>\<open>render\<close> only produces markup and is left out.
\<close>

record column =
  ckey :: string
  header :: string
  sortable :: "bool option"

datatype SortDirection = Asc | Desc

text \<open>\<^verbatim>\<open>interface SortConfig<T> { key: keyof T | null; direction }\<close>; \<open>None\<close> is \<^verbatim>\<open>null\<close>.\<close>

record SortConfig =
  key :: "string option"
  direction :: SortDirection

record DataTableProps =
  data :: "row list"
  columns :: "column list"
  pageSizeOptions :: "int list"
  defaultPageSize :: int

text \<open>
  The \<^verbatim>\<open>useState\<close> cells of the v4 component (\<^verbatim>\<open>hoveredRow\<close> only drives a hover
  style and is left out).
\<close>

record state =
  filterText :: string
  sortConfig :: SortConfig
  currentPage :: int
  pageSize :: int

section \<open>String primitives of the platform\<close>

definition digit_char :: "nat \<Rightarrow> char" where
  "digit_char d = ''0123456789'' ! d"

fun digits :: "nat \<Rightarrow> string" where
  "digits n = (if n < 10 then [digit_char n] else digits (n div 10) @ [digit_char (n mod 10)])"

text \<open>\<^verbatim>\<open>String(value)\<close>: \<^verbatim>\<open>null\<close> and \<^verbatim>\<open>undefined\<close> become their names.\<close>

fun js_String :: "jsval \<Rightarrow> string" where
  "js_String Undefined = ''undefined''"
| "js_String Null = ''null''"
| "js_String (Num n) = (if n < 0 then CHR ''-'' # digits (nat (- n)) else digits (nat n))"
| "js_String (Str s) = s"

definition lower_char :: "char \<Rightarrow> char" where
  "lower_char c =
     (case map_of (zip ''ABCDEFGHIJKLMNOPQRSTUVWXYZ'' ''abcdefghijklmnopqrstuvwxyz'') c of
        None \<Rightarrow> c | Some d \<Rightarrow> d)"

definition toLowerCase :: "string \<Rightarrow> string" where
  "toLowerCase s = map lower_char s"

text \<open>The ASCII white space that \<^verbatim>\<open>trim\<close> strips: TAB, LF, VT, FF, CR and space.\<close>

definition is_space :: "char \<Rightarrow> bool" where
  "is_space c = (c \<in> set [CHR 0x09, CHR 0x0A, CHR 0x0B, CHR 0x0C, CHR 0x0D, CHR '' ''])"

definition trim :: "string \<Rightarrow> string" where
  "trim s = rev (dropWhile is_space (rev (dropWhile is_space s)))"

text \<open>\<^verbatim>\<open>s.includes(t)\<close>: \<open>t\<close> occurs in \<open>s\<close> as a contiguous block.\<close>

fun js_includes :: "string \<Rightarrow> string \<Rightarrow> bool" where
  "js_includes [] t = (t = [])"
| "js_includes (c # s) t = (prefix t (c # s) \<or> js_includes s t)"

section \<open>Filter stage\<close>

text \<open>v4, \<^verbatim>\<open>filteredData\<close>. The empty string is the only falsy string.\<close>

definition filteredData :: "row list \<Rightarrow> column list \<Rightarrow> string \<Rightarrow> row list" where
  "filteredData rows cols ftext =
     (if trim ftext = [] then rows
      else
        let searchTerm = trim (toLowerCase ftext) in
        filter (\<lambda>r. list_ex (\<lambda>col.
                  let v = field r (ckey col) in
                  js_includes (toLowerCase (js_String v)) searchTerm) cols) rows)"

text \<open>v3, \<^verbatim>\<open>useFilter\<close>: the query is not trimmed, and a null value returns false.\<close>

definition useFilter :: "row list \<Rightarrow> column list \<Rightarrow> string \<Rightarrow> row list" where
  "useFilter rows cols ftext =
     (if trim ftext = [] then rows
      else
        let lowerFilter = toLowerCase ftext in
        filter (\<lambda>r. list_ex (\<lambda>col.
                  let v = field r (ckey col) in
                  if v = Null \<or> v = Undefined then False
                  else js_includes (toLowerCase (js_String v)) lowerFilter) cols) rows)"

text \<open>v2, \<^verbatim>\<open>useFiltering\<close>'s \<^verbatim>\<open>filterData\<close>; \<^verbatim>\<open>value == null\<close> holds of both nulls.\<close>

definition filterData :: "column list \<Rightarrow> string \<Rightarrow> row list \<Rightarrow> row list" where
  "filterData cols ftext rows =
     (if trim ftext = [] then rows
      else
        let searchTerm = trim (toLowerCase ftext);
            filterableKeys = map ckey cols in
        filter (\<lambda>r. list_ex (\<lambda>k.
                  let v = field r k in
                  if v = Null \<or> v = Undefined then False
                  else js_includes (toLowerCase (js_String v)) searchTerm) filterableKeys) rows)"

section \<open>Sort stage\<close>

text \<open>
  \<^verbatim>\<open>Array.prototype.sort\<close> belongs to the platform. ECMAScript fixes its result only for a
  consistent comparator: then it is the sorted permutation that keeps equal elements in their
  order. For any other comparator the order is left to the implementation. The model is the
  sort of the V8 engine (Node, Chrome), \<^verbatim>\<open>ArrayTimSort\<close>: it takes the run at the start of
  the array, reverses it when it is strictly descending, and inserts the elements after it
  one by one at the place a binary search finds. This is all that V8 does to an array of
  fewer than 64 elements, whose minimum run length is the length of the array. A longer
  array V8 cuts into several such runs, which it merges; the merge is not modelled, so from 64
  elements on the model is the engine's sort only where ECMAScript fixes the result, for a
  consistent comparator.

  \<^verbatim>\<open>CountAndMakeRun\<close>: the first comparison, of the second element with the first, decides
  whether the run is descending; the run ends at the first element that compares the other
  way with its predecessor.
\<close>

fun take_run :: "('a \<Rightarrow> 'a \<Rightarrow> int) \<Rightarrow> bool \<Rightarrow> 'a \<Rightarrow> 'a list \<Rightarrow> 'a list \<times> 'a list" where
  "take_run cmp isDescending previousElement [] = ([], [])"
| "take_run cmp isDescending previousElement (currentElement # rest) =
     (let order = cmp currentElement previousElement in
      if (isDescending \<and> order \<ge> 0) \<or> (\<not> isDescending \<and> order < 0)
      then ([], currentElement # rest)
      else
        let (rn, rest2) = take_run cmp isDescending currentElement rest
        in (currentElement # rn, rest2))"

definition CountAndMakeRun :: "('a \<Rightarrow> 'a \<Rightarrow> int) \<Rightarrow> 'a list \<Rightarrow> 'a list \<times> 'a list" where
  "CountAndMakeRun cmp xs =
     (case xs of
        [] \<Rightarrow> ([], [])
      | [elementHigh] \<Rightarrow> ([elementHigh], [])
      | elementHigh # elementLow # rest \<Rightarrow>
          let isDescending = (cmp elementLow elementHigh < 0);
              (rn, rest2) = take_run cmp isDescending elementLow rest
          in if isDescending then (rev (elementHigh # elementLow # rn), rest2)
             else (elementHigh # elementLow # rn, rest2))"

text \<open>
  \<^verbatim>\<open>BinaryInsertionSort\<close>: the search for the place of \<open>pivot\<close> in the sorted prefix \<open>a\<close>
  halves the range \<open>[left, right)\<close>, going left when the pivot compares below the middle
  element.
\<close>

function find_insertion_point ::
  "('a \<Rightarrow> 'a \<Rightarrow> int) \<Rightarrow> 'a \<Rightarrow> 'a list \<Rightarrow> nat \<Rightarrow> nat \<Rightarrow> nat" where
  "find_insertion_point cmp pivot a left right =
     (if left < right then
        let mid = left + (right - left) div 2 in
        if cmp pivot (a ! mid) < 0 then find_insertion_point cmp pivot a left mid
        else find_insertion_point cmp pivot a (mid + 1) right
      else left)"
  by pat_completeness auto
termination
  by (relation "measure (\<lambda>(cmp, pivot, a, left, right). right - left)") auto

declare find_insertion_point.simps [simp del]

definition binary_insert :: "('a \<Rightarrow> 'a \<Rightarrow> int) \<Rightarrow> 'a list \<Rightarrow> 'a \<Rightarrow> 'a list" where
  "binary_insert cmp a pivot =
     (let left = find_insertion_point cmp pivot a 0 (length a)
      in take left a @ pivot # drop left a)"

definition BinaryInsertionSort :: "('a \<Rightarrow> 'a \<Rightarrow> int) \<Rightarrow> 'a list \<Rightarrow> 'a list \<Rightarrow> 'a list" where
  "BinaryInsertionSort cmp rn rest2 = foldl (binary_insert cmp) rn rest2"

definition array_sort :: "('a \<Rightarrow> 'a \<Rightarrow> int) \<Rightarrow> 'a list \<Rightarrow> 'a list" where
  "array_sort cmp xs =
     (if length xs < 2 then xs
      else let (rn, rest2) = CountAndMakeRun cmp xs in BinaryInsertionSort cmp rn rest2)"

text \<open>
  A consistent comparator on a set of values, after ECMAScript: a value compares equal to
  itself, the sign turns when the arguments are swapped, and "not above" is transitive.
\<close>

definition consistent :: "('a \<Rightarrow> 'a \<Rightarrow> int) \<Rightarrow> 'a set \<Rightarrow> bool" where
  "consistent cmp S =
     ((\<forall>a\<in>S. cmp a a = 0) \<and>
      (\<forall>a\<in>S. \<forall>b\<in>S. (cmp a b < 0) = (0 < cmp b a)) \<and>
      (\<forall>a\<in>S. \<forall>b\<in>S. \<forall>c\<in>S. cmp a b \<le> 0 \<and> cmp b c \<le> 0 \<longrightarrow> cmp a c \<le> 0))"

definition nullish :: "jsval \<Rightarrow> bool" where
  "nullish v = (v = Null \<or> v = Undefined)"

text \<open>
  v4, the comparator of \<^verbatim>\<open>sortedData\<close>. \<^verbatim>\<open>localeCompare\<close> depends on the locale of
  the platform and is a parameter \<open>lc\<close>.
\<close>

definition comparator ::
  "(string \<Rightarrow> string \<Rightarrow> int) \<Rightarrow> SortConfig \<Rightarrow> string \<Rightarrow> row \<Rightarrow> row \<Rightarrow> int" where
  "comparator lc cfg k a b =
     (let aVal = field a k; bVal = field b k in
      if aVal = bVal then 0
      else if nullish aVal then 1
      else if nullish bVal then - 1
      else
        let comparison =
              (case (aVal, bVal) of
                 (Num x, Num y) \<Rightarrow> x - y
               | _ \<Rightarrow> lc (js_String aVal) (js_String bVal))
        in if direction cfg = Asc then comparison else - comparison)"

text \<open>
  v4, \<^verbatim>\<open>sortedData\<close>. \<^verbatim>\<open>!sortConfig.key\<close> holds of \<^verbatim>\<open>null\<close> and of the empty
  string.
\<close>

definition sortedData ::
  "(string \<Rightarrow> string \<Rightarrow> int) \<Rightarrow> row list \<Rightarrow> SortConfig \<Rightarrow> row list" where
  "sortedData lc filtered cfg =
     (case key cfg of
        None \<Rightarrow> filtered
      | Some k \<Rightarrow> if k = [] then filtered else array_sort (comparator lc cfg k) filtered)"

text \<open>
  v3, the comparator of \<^verbatim>\<open>useSort\<close>. The relational operator \<^verbatim>\<open><\<close> on two field
  values is a parameter \<open>lt\<close>.
\<close>

definition useSort_comparator ::
  "(jsval \<Rightarrow> jsval \<Rightarrow> bool) \<Rightarrow> SortConfig \<Rightarrow> string \<Rightarrow> row \<Rightarrow> row \<Rightarrow> int" where
  "useSort_comparator lt cfg k a b =
     (let aValue = field a k; bValue = field b k in
      if aValue = bValue then 0
      else if aValue = Null \<or> aValue = Undefined then 1
      else if bValue = Null \<or> bValue = Undefined then - 1
      else
        let comparison = (if lt aValue bValue then - 1 else 1)
        in if direction cfg = Asc then comparison else - comparison)"

definition useSort_sortedData ::
  "(jsval \<Rightarrow> jsval \<Rightarrow> bool) \<Rightarrow> row list \<Rightarrow> SortConfig \<Rightarrow> row list" where
  "useSort_sortedData lt rows cfg =
     (case key cfg of
        None \<Rightarrow> rows
      | Some k \<Rightarrow> if k = [] then rows else array_sort (useSort_comparator lt cfg k) rows)"



section \<open>Pagination stage\<close>

text \<open>
  \<^verbatim>\<open>Math.max(1, Math.ceil(sortedData.length / pageSize))\<close>. The quotient is the exact one
  for a positive page size; a page size of zero (where JavaScript yields an infinity or
  \<^verbatim>\<open>NaN\<close>) is outside the model, and the theorems below assume \<open>0 < pageSize\<close>.
\<close>

definition totalPages :: "'a list \<Rightarrow> int \<Rightarrow> int" where
  "totalPages srt ps = max 1 \<lceil>real (length srt) / real_of_int ps\<rceil>"

definition safePage :: "'a list \<Rightarrow> int \<Rightarrow> int \<Rightarrow> int" where
  "safePage srt cp ps = min cp (totalPages srt ps)"

text \<open>
  \<^verbatim>\<open>Array.prototype.slice(start, end)\<close>: a negative index counts from the end of the
  array, every index is cut to the range of the array, and nothing is ever raised.
\<close>

definition slice :: "'a list \<Rightarrow> int \<Rightarrow> int \<Rightarrow> 'a list" where
  "slice xs start fin =
     (let len = int (length xs);
          k = (if start < 0 then max (len + start) 0 else min start len);
          final = (if fin < 0 then max (len + fin) 0 else min fin len)
      in take (nat (final - k)) (drop (nat k) xs))"

definition paginatedData :: "'a list \<Rightarrow> int \<Rightarrow> int \<Rightarrow> 'a list" where
  "paginatedData srt cp ps =
     (let startIndex = (safePage srt cp ps - 1) * ps
      in slice srt startIndex (startIndex + ps))"

text \<open>
  v3, \<^verbatim>\<open>usePagination\<close>, computes \<^verbatim>\<open>totalPages\<close>, \<^verbatim>\<open>safePage\<close> and the slice by the
  same three expressions; it also returns the item count, and \<^verbatim>\<open>goToPage\<close> stores the
  clamped page.
\<close>

definition totalItems :: "'a list \<Rightarrow> int" where
  "totalItems srt = int (length srt)"

definition goToPage :: "'a list \<Rightarrow> int \<Rightarrow> int \<Rightarrow> int" where
  "goToPage srt ps page = (let validPage = max 1 (min page (totalPages srt ps)) in validPage)"

text \<open>\<^verbatim>\<open>getPageNumbers\<close> of v4: the numbered page buttons that are rendered.\<close>

definition getPageNumbers :: "int \<Rightarrow> int \<Rightarrow> int list" where
  "getPageNumbers tp sp =
     (let maxVisible = 5 in
      if tp \<le> maxVisible then [1..tp]
      else if sp \<le> 3 then [1..maxVisible]
      else if sp \<ge> tp - 2 then [tp - maxVisible + 1..tp]
      else [sp - 2..sp + 2])"

section \<open>The component: derived values, handlers and events (v4)\<close>

definition sorted_of :: "(string \<Rightarrow> string \<Rightarrow> int) \<Rightarrow> DataTableProps \<Rightarrow> state \<Rightarrow> row list" where
  "sorted_of lc P s =
     sortedData lc (filteredData (data P) (columns P) (filterText s)) (sortConfig s)"

definition totalPages_of :: "(string \<Rightarrow> string \<Rightarrow> int) \<Rightarrow> DataTableProps \<Rightarrow> state \<Rightarrow> int" where
  "totalPages_of lc P s = totalPages (sorted_of lc P s) (pageSize s)"

definition safePage_of :: "(string \<Rightarrow> string \<Rightarrow> int) \<Rightarrow> DataTableProps \<Rightarrow> state \<Rightarrow> int" where
  "safePage_of lc P s = safePage (sorted_of lc P s) (currentPage s) (pageSize s)"

definition paginatedData_of ::
  "(string \<Rightarrow> string \<Rightarrow> int) \<Rightarrow> DataTableProps \<Rightarrow> state \<Rightarrow> row list" where
  "paginatedData_of lc P s = paginatedData (sorted_of lc P s) (currentPage s) (pageSize s)"

definition initial :: "DataTableProps \<Rightarrow> state" where
  "initial P =
     \<lparr>filterText = [], sortConfig = \<lparr>key = None, direction = Asc\<rparr>,
      currentPage = 1, pageSize = defaultPageSize P\<rparr>"

definition handleSort :: "state \<Rightarrow> string \<Rightarrow> state" where
  "handleSort s k =
     s\<lparr>sortConfig :=
         \<lparr>key = Some k,
          direction =
            (if key (sortConfig s) = Some k \<and> direction (sortConfig s) = Asc then Desc
             else Asc)\<rparr>,
       currentPage := 1\<rparr>"

text \<open>v3, \<^verbatim>\<open>handleSort\<close> of \<^verbatim>\<open>useSort\<close>: the same update, on the sort state alone.\<close>

definition useSort_handleSort :: "SortConfig \<Rightarrow> string \<Rightarrow> SortConfig" where
  "useSort_handleSort prev k =
     (let newDirection = (if key prev = Some k \<and> direction prev = Asc then Desc else Asc)
      in \<lparr>key = Some k, direction = newDirection\<rparr>)"

definition handleFilterChange :: "state \<Rightarrow> string \<Rightarrow> state" where
  "handleFilterChange s v = s\<lparr>filterText := v, currentPage := 1\<rparr>"

definition handlePageSizeChange :: "state \<Rightarrow> int \<Rightarrow> state" where
  "handlePageSizeChange s n = s\<lparr>pageSize := n, currentPage := 1\<rparr>"

text \<open>
  What a user can do to the rendered component. A header only exists for a column of the
  props, a page-size option only for a member of \<^verbatim>\<open>pageSizeOptions\<close>, a numbered button
  only for a member of \<^verbatim>\<open>getPageNumbers()\<close>, and a disabled button does not fire.
\<close>

datatype event =
    FilterInput string
  | HeaderClick column
  | HeaderKeyDown column string
  | PageSizeSelect int
  | FirstPage
  | PrevPage
  | PageNumber int
  | NextPage
  | LastPage

definition handle ::
  "(string \<Rightarrow> string \<Rightarrow> int) \<Rightarrow> DataTableProps \<Rightarrow> state \<Rightarrow> event \<Rightarrow> state" where
  "handle lc P s e =
     (let tp = totalPages_of lc P s; sp = safePage_of lc P s in
      case e of
        FilterInput v \<Rightarrow> handleFilterChange s v
      | HeaderClick col \<Rightarrow>
          if col \<in> set (columns P) \<and> sortable col = Some True
          then handleSort s (ckey col) else s
      | HeaderKeyDown col pressed \<Rightarrow>
          if col \<in> set (columns P) \<and> sortable col = Some True
             \<and> (pressed = ''Enter'' \<or> pressed = '' '')
          then handleSort s (ckey col) else s
      | PageSizeSelect n \<Rightarrow>
          if n \<in> set (pageSizeOptions P) then handlePageSizeChange s n else s
      | FirstPage \<Rightarrow> if sp = 1 then s else s\<lparr>currentPage := 1\<rparr>
      | PrevPage \<Rightarrow> if sp = 1 then s else s\<lparr>currentPage := max 1 (currentPage s - 1)\<rparr>
      | PageNumber n \<Rightarrow>
          if n \<in> set (getPageNumbers tp sp) then s\<lparr>currentPage := n\<rparr> else s
      | NextPage \<Rightarrow> if sp = tp then s else s\<lparr>currentPage := min tp (currentPage s + 1)\<rparr>
      | LastPage \<Rightarrow> if sp = tp then s else s\<lparr>currentPage := tp\<rparr>)"

fun run ::
  "(string \<Rightarrow> string \<Rightarrow> int) \<Rightarrow> DataTableProps \<Rightarrow> state \<Rightarrow> event list \<Rightarrow> state" where
  "run lc P s [] = s"
| "run lc P s (e # es) = run lc P (handle lc P s e) es"

definition is_navigation :: "event \<Rightarrow> bool" where
  "is_navigation e =
     (case e of
        FirstPage \<Rightarrow> True | PrevPage \<Rightarrow> True | PageNumber n \<Rightarrow> True
      | NextPage \<Rightarrow> True | LastPage \<Rightarrow> True | _ \<Rightarrow> False)"

text \<open>The props the data model allows: every page size on offer is a positive integer.\<close>

definition valid_props :: "DataTableProps \<Rightarrow> bool" where
  "valid_props P = (0 < defaultPageSize P \<and> list_all (\<lambda>n. 0 < n) (pageSizeOptions P))"

text \<open>A code-unit comparison, one possible \<^verbatim>\<open>localeCompare\<close>, for concrete runs.\<close>

fun codeunit_compare :: "string \<Rightarrow> string \<Rightarrow> int" where
  "codeunit_compare [] [] = 0"
| "codeunit_compare [] (d # t) = - 1"
| "codeunit_compare (c # s) [] = 1"
| "codeunit_compare (c # s) (d # t) =
     (if (of_char c :: nat) < of_char d then - 1
      else if (of_char d :: nat) < of_char c then 1
      else codeunit_compare s t)"

text \<open>A small table for concrete runs: three rows, one page per row.\<close>

definition demo_props :: DataTableProps where
  "demo_props =
     \<lparr>data =
        [[(''id'', Num 1), (''name'', Str ''Alice''), (''dept'', Null)],
         [(''id'', Num 2), (''name'', Str ''Bob''), (''dept'', Str ''Eng'')],
         [(''id'', Num 3), (''name'', Str ''Carol''), (''dept'', Undefined)]],
      columns =
        [\<lparr>ckey = ''name'', header = ''Name'', sortable = Some True\<rparr>,
         \<lparr>ckey = ''dept'', header = ''Dept'', sortable = None\<rparr>],
      pageSizeOptions = [1, 2],
      defaultPageSize = 1\<rparr>"



lemmas eval_defs = demo_props_def initial_def handle_def handleSort_def handleFilterChange_def
  handlePageSizeChange_def totalPages_of_def safePage_of_def paginatedData_of_def sorted_of_def
  totalPages_def safePage_def paginatedData_def slice_def getPageNumbers_def
  sortedData_def array_sort_def CountAndMakeRun_def BinaryInsertionSort_def binary_insert_def
  find_insertion_point.simps comparator_def nullish_def filteredData_def field_def
  trim_def is_space_def toLowerCase_def lower_char_def valid_props_def is_navigation_def


section \<open>Substrings and the filter stage\<close>

lemma js_includes_iff: "js_includes s t \<longleftrightarrow> (\<exists>u v. s = u @ t @ v)"
proof (induction s)
  case Nil
  then show ?case by auto
next
  case (Cons c s)
  have "(\<exists>u v. c # s = u @ t @ v) \<longleftrightarrow> (\<exists>v. c # s = t @ v) \<or> (\<exists>u v. s = u @ t @ v)"
  proof
    assume "\<exists>u v. c # s = u @ t @ v"
    then obtain u v where uv: "c # s = u @ t @ v" by blast
    show "(\<exists>v. c # s = t @ v) \<or> (\<exists>u v. s = u @ t @ v)"
    proof (cases u)
      case Nil
      with uv show ?thesis by auto
    next
      case (Cons d u')
      with uv have "s = u' @ t @ v" by simp
      then show ?thesis by blast
    qed
  next
    assume "(\<exists>v. c # s = t @ v) \<or> (\<exists>u v. s = u @ t @ v)"
    then show "\<exists>u v. c # s = u @ t @ v"
    proof
      assume "\<exists>v. c # s = t @ v"
      then obtain v where "c # s = [] @ t @ v" by auto
      then show ?thesis by blast
    next
      assume "\<exists>u v. s = u @ t @ v"
      then obtain u v where "c # s = (c # u) @ t @ v" by auto
      then show ?thesis by blast
    qed
  qed
  with Cons show ?case by (simp add: prefix_def)
qed

lemma filteredData_blank: "trim q = [] \<Longrightarrow> filteredData rows cols q = rows"
  by (simp add: filteredData_def)

lemma filteredData_member:
  "trim q \<noteq> [] \<Longrightarrow>
   r \<in> set (filteredData rows cols q) \<longleftrightarrow>
     r \<in> set rows \<and>
     (\<exists>c\<in>set cols. \<exists>u v. toLowerCase (js_String (field r (ckey c))) = u @ trim (toLowerCase q) @ v)"
  by (auto simp: filteredData_def list_ex_iff js_includes_iff Let_def)

lemma useFilter_member:
  "trim q \<noteq> [] \<Longrightarrow>
   r \<in> set (useFilter rows cols q) \<longleftrightarrow>
     r \<in> set rows \<and>
     (\<exists>c\<in>set cols. \<not> nullish (field r (ckey c)) \<and>
        (\<exists>u v. toLowerCase (js_String (field r (ckey c))) = u @ toLowerCase q @ v))"
  by (auto simp: useFilter_def list_ex_iff js_includes_iff nullish_def Let_def)

lemma filterData_member:
  "trim q \<noteq> [] \<Longrightarrow>
   r \<in> set (filterData cols q rows) \<longleftrightarrow>
     r \<in> set rows \<and>
     (\<exists>c\<in>set cols. \<not> nullish (field r (ckey c)) \<and>
        (\<exists>u v. toLowerCase (js_String (field r (ckey c))) = u @ trim (toLowerCase q) @ v))"
  by (auto simp: filterData_def list_ex_iff js_includes_iff nullish_def Let_def)

lemma useFilter_skips_nullish:
  "trim q \<noteq> [] \<Longrightarrow> \<forall>c\<in>set cols. nullish (field r (ckey c)) \<Longrightarrow> r \<notin> set (useFilter rows cols q)"
  by (simp add: useFilter_member)

lemma filterData_skips_nullish:
  "trim q \<noteq> [] \<Longrightarrow> \<forall>c\<in>set cols. nullish (field r (ckey c)) \<Longrightarrow> r \<notin> set (filterData cols q rows)"
  by (simp add: filterData_member)

lemma siblings_reject_null:
  "useFilter [[(''id'', Num 1), (''department'', Null)]]
     [\<lparr>ckey = ''department'', header = ''Department'', sortable = Some True\<rparr>] ''null'' = [] \<and>
   filterData [\<lparr>ckey = ''department'', header = ''Department'', sortable = Some True\<rparr>] ''null''
     [[(''id'', Num 1), (''department'', Null)]] = []"
  by (simp add: trim_def is_space_def toLowerCase_def lower_char_def field_def useFilter_def filterData_def)

section \<open>The sort model: permutation, order and stability\<close>

lemma take_run_append: "take_run cmp d prev xs = (rn, rest2) \<Longrightarrow> xs = rn @ rest2"
proof (induction xs arbitrary: prev rn rest2)
  case Nil
  then show ?case by simp
next
  case (Cons cur rest)
  obtain r q where rq: "take_run cmp d cur rest = (r, q)" by (cases "take_run cmp d cur rest")
  from Cons.IH [OF rq] have "rest = r @ q" .
  with Cons.prems rq show ?case by (cases d) (auto simp: Let_def split: if_splits)
qed

lemma CountAndMakeRun_mset:
  assumes "CountAndMakeRun cmp xs = (rn, rest2)"
  shows "mset rn + mset rest2 = mset xs"
proof (cases xs)
  case Nil
  with assms show ?thesis by (simp add: CountAndMakeRun_def)
next
  case (Cons x0 ys)
  show ?thesis
  proof (cases ys)
    case Nil
    with Cons assms show ?thesis by (simp add: CountAndMakeRun_def)
  next
    case (Cons x1 rest)
    obtain r q where rq: "take_run cmp (cmp x1 x0 < 0) x1 rest = (r, q)"
      by (cases "take_run cmp (cmp x1 x0 < 0) x1 rest")
    from take_run_append [OF rq] have rest: "rest = r @ q" .
    from assms rq \<open>xs = x0 # ys\<close> Cons
    have "(rn = rev (x0 # x1 # r) \<or> rn = x0 # x1 # r) \<and> rest2 = q"
      by (simp add: CountAndMakeRun_def Let_def split: if_splits)
    with rest \<open>xs = x0 # ys\<close> Cons show ?thesis by auto
  qed
qed

lemma find_insertion_point_boundary:
  assumes "left \<le> right" "right \<le> length a"
    and "left = 0 \<or> \<not> cmp pivot (a ! (left - 1)) < 0"
    and "right = length a \<or> cmp pivot (a ! right) < 0"
  shows "left \<le> find_insertion_point cmp pivot a left right \<and>
         find_insertion_point cmp pivot a left right \<le> right \<and>
         (find_insertion_point cmp pivot a left right = 0 \<or>
          \<not> cmp pivot (a ! (find_insertion_point cmp pivot a left right - 1)) < 0) \<and>
         (find_insertion_point cmp pivot a left right = length a \<or>
          cmp pivot (a ! find_insertion_point cmp pivot a left right) < 0)"
  using assms
proof (induction cmp pivot a left right rule: find_insertion_point.induct)
  case (1 cmp pivot a left right)
  show ?case
  proof (cases "left < right")
    case False
    with "1.prems" have eq: "left = right" by simp
    have "find_insertion_point cmp pivot a left right = left"
      using False by (subst find_insertion_point.simps) simp
    with "1.prems" eq show ?thesis by simp
  next
    case True
    define mid where "mid = left + (right - left) div 2"
    from True have m: "left \<le> mid" "mid < right" by (simp_all add: mid_def)
    show ?thesis
    proof (cases "cmp pivot (a ! mid) < 0")
      case less: True
      have unf: "find_insertion_point cmp pivot a left right = find_insertion_point cmp pivot a left mid"
        using True less by (subst find_insertion_point.simps) (simp add: mid_def Let_def)
      from m "1.prems" have "mid \<le> length a" by simp
      from "1.IH"(1) [OF True mid_def less m(1) this "1.prems"(3)] less m
      show ?thesis unfolding unf by auto
    next
      case nless: False
      have unf: "find_insertion_point cmp pivot a left right
                   = find_insertion_point cmp pivot a (mid + 1) right"
        using True nless by (subst find_insertion_point.simps) (simp add: mid_def Let_def)
      from m have "mid + 1 \<le> right" by simp
      from "1.IH"(2) [OF True mid_def nless this "1.prems"(2) _ "1.prems"(4)] nless m
      show ?thesis unfolding unf by auto
    qed
  qed
qed


lemma consistent_anti: "consistent cmp S \<Longrightarrow> a \<in> S \<Longrightarrow> b \<in> S \<Longrightarrow> (cmp a b < 0) = (0 < cmp b a)"
  by (simp add: consistent_def)

lemma consistent_trans:
  "consistent cmp S \<Longrightarrow> a \<in> S \<Longrightarrow> b \<in> S \<Longrightarrow> c \<in> S \<Longrightarrow> cmp a b \<le> 0 \<Longrightarrow> cmp b c \<le> 0
   \<Longrightarrow> cmp a c \<le> 0"
  unfolding consistent_def by blast

lemma consistent_ge_le:
  assumes "consistent cmp S" "a \<in> S" "b \<in> S" "0 \<le> cmp a b"
  shows "cmp b a \<le> 0"
proof (rule ccontr)
  assume "\<not> cmp b a \<le> 0"
  then have "0 < cmp b a" by simp
  with consistent_anti [OF assms(1,2,3)] have "cmp a b < 0" by simp
  with assms(4) show False by simp
qed

lemma consistent_lt_le:
  assumes c: "consistent cmp S" and m: "a \<in> S" "b \<in> S" "c \<in> S"
      and ab: "cmp a b < 0" and bc: "cmp b c \<le> 0"
  shows "cmp a c < 0"
proof (rule ccontr)
  assume "\<not> cmp a c < 0"
  then have "0 \<le> cmp a c" by simp
  then have "cmp c a \<le> 0" by (rule consistent_ge_le [OF c m(1) m(3)])
  with bc have "cmp b a \<le> 0" using consistent_trans [OF c m(2) m(3) m(1)] by blast
  moreover from ab consistent_anti [OF c m(1) m(2)] have "0 < cmp b a" by simp
  ultimately show False by simp
qed

lemma consistent_lt_lt:
  assumes "consistent cmp S" "a \<in> S" "b \<in> S" "c \<in> S" "cmp a b < 0" "cmp b c < 0"
  shows "cmp a c < 0"
  using consistent_lt_le [OF assms(1-5)] assms(6) by simp


lemma find_insertion_point_partition:
  assumes mono: "sorted_wrt (\<lambda>x y. cmp pivot x < 0 \<longrightarrow> cmp pivot y < 0) a"
  shows "find_insertion_point cmp pivot a 0 (length a) \<le> length a \<and>
         (\<forall>x\<in>set (take (find_insertion_point cmp pivot a 0 (length a)) a). \<not> cmp pivot x < 0) \<and>
         (\<forall>x\<in>set (drop (find_insertion_point cmp pivot a 0 (length a)) a). cmp pivot x < 0)"
proof -
  define p where "p = find_insertion_point cmp pivot a 0 (length a)"
  from find_insertion_point_boundary [of 0 "length a" a cmp pivot]
  have le: "p \<le> length a"
    and lo: "p = 0 \<or> \<not> cmp pivot (a ! (p - 1)) < 0"
    and hi: "p = length a \<or> cmp pivot (a ! p) < 0"
    by (simp_all add: p_def)
  from mono have nth: "cmp pivot (a ! i) < 0 \<Longrightarrow> cmp pivot (a ! j) < 0"
    if "i < j" "j < length a" for i j
    using that by (simp add: sorted_wrt_iff_nth_less)
  have before: "\<not> cmp pivot (a ! i) < 0" if "i < p" for i
  proof
    assume neg: "cmp pivot (a ! i) < 0"
    from that lo have last: "\<not> cmp pivot (a ! (p - 1)) < 0" by auto
    show False
    proof (cases "i = p - 1")
      case True
      with neg last show False by simp
    next
      case False
      with that have "i < p - 1" "p - 1 < length a" using le by simp_all
      from nth [OF this neg] last show False by simp
    qed
  qed
  have after: "cmp pivot (a ! i) < 0" if "p \<le> i" "i < length a" for i
  proof -
    from that hi have first: "cmp pivot (a ! p) < 0" by auto
    show ?thesis
    proof (cases "i = p")
      case True
      with first show ?thesis by simp
    next
      case False
      with that have "p < i" by simp
      from nth [OF this that(2) first] show ?thesis .
    qed
  qed
  have "\<forall>x\<in>set (take p a). \<not> cmp pivot x < 0"
  proof
    fix x assume "x \<in> set (take p a)"
    then obtain i where "i < length (take p a)" "x = take p a ! i" by (auto simp: in_set_conv_nth)
    with before [of i] show "\<not> cmp pivot x < 0" by simp
  qed
  moreover have "\<forall>x\<in>set (drop p a). cmp pivot x < 0"
  proof
    fix x assume "x \<in> set (drop p a)"
    then obtain i where i: "i < length (drop p a)" "x = drop p a ! i" by (auto simp: in_set_conv_nth)
    with le after [of "p + i"] show "cmp pivot x < 0" by simp
  qed
  ultimately show ?thesis using le by (simp add: p_def)
qed

lemma binary_insert_mset: "mset (binary_insert cmp a pivot) = add_mset pivot (mset a)"
proof -
  have "mset (take n a) + mset (drop n a) = mset a" for n
    by (metis append_take_drop_id mset_append)
  then show ?thesis by (simp add: binary_insert_def Let_def)
qed

lemma binary_insert_set: "set (binary_insert cmp a pivot) = insert pivot (set a)"
  using binary_insert_mset [of cmp a pivot] by (metis set_mset_mset set_mset_add_mset_insert)

lemma binary_insert_consistent:
  assumes c: "consistent cmp S" and piv: "pivot \<in> S" and sub: "set a \<subseteq> S"
      and srt: "sorted_wrt (\<lambda>x y. cmp x y \<le> 0) a"
  shows "sorted_wrt (\<lambda>x y. cmp x y \<le> 0) (binary_insert cmp a pivot)"
    and "\<forall>x\<in>S. \<forall>y\<in>S. P x \<and> P y \<longrightarrow> cmp x y = 0 \<Longrightarrow>
         filter P (binary_insert cmp a pivot) = filter P (a @ [pivot])"
proof -
  define p where "p = find_insertion_point cmp pivot a 0 (length a)"
  have mono: "sorted_wrt (\<lambda>x y. cmp pivot x < 0 \<longrightarrow> cmp pivot y < 0) a"
  proof (rule sorted_wrt_mono_rel [OF _ srt])
    fix x y assume "x \<in> set a" "y \<in> set a" "cmp x y \<le> 0"
    with sub piv consistent_lt_le [OF c, of pivot x y]
    show "cmp pivot x < 0 \<longrightarrow> cmp pivot y < 0" by blast
  qed
  from find_insertion_point_partition [of cmp pivot a] mono
  have lo: "\<forall>x\<in>set (take p a). \<not> cmp pivot x < 0"
    and hi: "\<forall>x\<in>set (drop p a). cmp pivot x < 0"
    by (simp_all add: p_def)
  have shape: "binary_insert cmp a pivot = take p a @ pivot # drop p a"
    by (simp add: binary_insert_def p_def Let_def)
  have split: "a = take p a @ drop p a" by simp
  from srt have "sorted_wrt (\<lambda>x y. cmp x y \<le> 0) (take p a @ drop p a)" by simp
  then have parts: "sorted_wrt (\<lambda>x y. cmp x y \<le> 0) (take p a)"
    "sorted_wrt (\<lambda>x y. cmp x y \<le> 0) (drop p a)"
    "\<forall>x\<in>set (take p a). \<forall>y\<in>set (drop p a). cmp x y \<le> 0"
    unfolding sorted_wrt_append by blast+
  have tk: "set (take p a) \<subseteq> S" and dr: "set (drop p a) \<subseteq> S"
    using sub set_take_subset [of p a] set_drop_subset [of p a] by blast+
  have below: "\<forall>x\<in>set (take p a). cmp x pivot \<le> 0"
  proof
    fix x assume x: "x \<in> set (take p a)"
    with lo have "0 \<le> cmp pivot x" by auto
    with x tk show "cmp x pivot \<le> 0" by (intro consistent_ge_le [OF c piv]) auto
  qed
  from hi have above: "\<forall>y\<in>set (drop p a). cmp pivot y \<le> 0" by auto
  show "sorted_wrt (\<lambda>x y. cmp x y \<le> 0) (binary_insert cmp a pivot)"
    unfolding shape using parts below above by (simp add: sorted_wrt_append)
  assume eq: "\<forall>x\<in>S. \<forall>y\<in>S. P x \<and> P y \<longrightarrow> cmp x y = 0"
  have none: "filter P (drop p a) = []" if "P pivot"
  proof -
    have "\<not> P y" if "y \<in> set (drop p a)" for y
    proof
      assume "P y"
      with \<open>P pivot\<close> eq piv that dr have "cmp pivot y = 0" by blast
      with hi that show False by auto
    qed
    then show ?thesis by (simp add: filter_empty_conv)
  qed
  have "filter P (take p a @ drop p a) = filter P (take p a) @ filter P (drop p a)"
    by (rule filter_append)
  then have "filter P (a @ [pivot]) = filter P (take p a) @ filter P (drop p a) @ filter P [pivot]"
    by simp
  also have "\<dots> = filter P (take p a) @ filter P (pivot # drop p a)"
    using none by (cases "P pivot") simp_all
  finally show "filter P (binary_insert cmp a pivot) = filter P (a @ [pivot])"
    unfolding shape by simp
qed

lemma take_run_asc_sorted:
  assumes c: "consistent cmp S"
  shows "take_run cmp False prev xs = (rn, rest2) \<Longrightarrow> prev \<in> S \<Longrightarrow> set xs \<subseteq> S \<Longrightarrow>
         sorted_wrt (\<lambda>x y. cmp x y \<le> 0) (prev # rn)"
proof (induction xs arbitrary: prev rn rest2)
  case Nil
  then show ?case by simp
next
  case (Cons cur rest)
  obtain r q where rq: "take_run cmp False cur rest = (r, q)"
    by (cases "take_run cmp False cur rest")
  show ?case
  proof (cases "cmp cur prev < 0")
    case True
    with Cons.prems show ?thesis by simp
  next
    case False
    with Cons.prems rq have rn: "rn = cur # r" by (simp add: Let_def)
    from Cons.prems have cur: "cur \<in> S" and rest: "set rest \<subseteq> S" by simp_all
    from Cons.IH [OF rq cur rest] have ih: "sorted_wrt (\<lambda>x y. cmp x y \<le> 0) (cur # r)" .
    from take_run_append [OF rq] rest have rS: "set r \<subseteq> S" by auto
    from False have "0 \<le> cmp cur prev" by simp
    then have pc: "cmp prev cur \<le> 0" by (rule consistent_ge_le [OF c cur Cons.prems(2)])
    have "cmp prev e \<le> 0" if "e \<in> set r" for e
    proof -
      from ih that have "cmp cur e \<le> 0" by simp
      with pc show ?thesis
        using consistent_trans [OF c Cons.prems(2) cur, of e] rS that by blast
    qed
    with pc ih show ?thesis unfolding rn by simp
  qed
qed

lemma take_run_desc_sorted:
  assumes c: "consistent cmp S"
  shows "take_run cmp True prev xs = (rn, rest2) \<Longrightarrow> prev \<in> S \<Longrightarrow> set xs \<subseteq> S \<Longrightarrow>
         sorted_wrt (\<lambda>x y. cmp y x < 0) (prev # rn)"
proof (induction xs arbitrary: prev rn rest2)
  case Nil
  then show ?case by simp
next
  case (Cons cur rest)
  obtain r q where rq: "take_run cmp True cur rest = (r, q)"
    by (cases "take_run cmp True cur rest")
  show ?case
  proof (cases "0 \<le> cmp cur prev")
    case True
    with Cons.prems show ?thesis by simp
  next
    case False
    with Cons.prems rq have rn: "rn = cur # r" by (simp add: Let_def)
    from Cons.prems have cur: "cur \<in> S" and rest: "set rest \<subseteq> S" by simp_all
    from Cons.IH [OF rq cur rest] have ih: "sorted_wrt (\<lambda>x y. cmp y x < 0) (cur # r)" .
    from take_run_append [OF rq] rest have rS: "set r \<subseteq> S" by auto
    from False have cp: "cmp cur prev < 0" by simp
    have "cmp e prev < 0" if "e \<in> set r" for e
    proof -
      from ih that have "cmp e cur < 0" by simp
      with cp show ?thesis
        using consistent_lt_lt [OF c _ cur Cons.prems(2), of e] rS that by blast
    qed
    with cp ih show ?thesis unfolding rn by simp
  qed
qed

lemma filter_rev_strict:
  "sorted_wrt R l \<Longrightarrow> \<forall>x\<in>set l. \<forall>y\<in>set l. P x \<and> P y \<longrightarrow> \<not> R x y \<Longrightarrow>
   filter P (rev l) = filter P l"
proof (induction l)
  case Nil
  then show ?case by simp
next
  case (Cons a l)
  from Cons.prems have ih: "filter P (rev l) = filter P l" by (intro Cons.IH) simp_all
  show ?case
  proof (cases "P a")
    case True
    have "\<not> P y" if "y \<in> set l" for y
      using Cons.prems True that by auto
    then have "filter P l = []" by (simp add: filter_empty_conv)
    with ih True show ?thesis by simp
  next
    case False
    with ih show ?thesis by simp
  qed
qed

lemma CountAndMakeRun_consistent:
  assumes c: "consistent cmp S" and cr: "CountAndMakeRun cmp xs = (rn, rest2)" and sub: "set xs \<subseteq> S"
  shows "sorted_wrt (\<lambda>x y. cmp x y \<le> 0) rn"
    and "\<forall>x\<in>S. \<forall>y\<in>S. P x \<and> P y \<longrightarrow> cmp x y = 0 \<Longrightarrow> filter P (rn @ rest2) = filter P xs"
proof -
  have "sorted_wrt (\<lambda>x y. cmp x y \<le> 0) rn \<and>
        ((\<forall>x\<in>S. \<forall>y\<in>S. P x \<and> P y \<longrightarrow> cmp x y = 0) \<longrightarrow> filter P (rn @ rest2) = filter P xs)"
  proof (cases xs)
    case Nil
    with cr show ?thesis by (simp add: CountAndMakeRun_def)
  next
    case (Cons x0 ys)
    show ?thesis
    proof (cases ys)
      case Nil
      with Cons cr have "rn = [x0]" "rest2 = []" "xs = [x0]" by (simp_all add: CountAndMakeRun_def)
      then show ?thesis by simp
    next
      case (Cons x1 rest)
      with \<open>xs = x0 # ys\<close> have xs: "xs = x0 # x1 # rest" by simp
      with sub have m: "x0 \<in> S" "x1 \<in> S" "set rest \<subseteq> S" by simp_all
      obtain r q where rq: "take_run cmp (cmp x1 x0 < 0) x1 rest = (r, q)"
        by (cases "take_run cmp (cmp x1 x0 < 0) x1 rest")
      from take_run_append [OF rq] have rest: "rest = r @ q" .
      with m have rS: "set r \<subseteq> S" by simp
      show ?thesis
      proof (cases "cmp x1 x0 < 0")
        case True
        with cr rq xs have rn: "rn = rev (x0 # x1 # r)" and q: "rest2 = q"
          by (simp_all add: CountAndMakeRun_def Let_def)
        from rq True have "take_run cmp True x1 rest = (r, q)" by simp
        from take_run_desc_sorted [OF c this m(2,3)]
        have d1: "sorted_wrt (\<lambda>x y. cmp y x < 0) (x1 # r)" .
        have "cmp e x0 < 0" if "e \<in> set r" for e
        proof -
          from d1 that have "cmp e x1 < 0" by simp
          with True show ?thesis
            using consistent_lt_lt [OF c _ m(2) m(1), of e] rS that by blast
        qed
        with True d1 have d: "sorted_wrt (\<lambda>x y. cmp y x < 0) (x0 # x1 # r)" by simp
        then have "sorted_wrt (\<lambda>x y. cmp x y < 0) (rev (x0 # x1 # r))"
          by (simp only: sorted_wrt_rev)
        then have s: "sorted_wrt (\<lambda>x y. cmp x y \<le> 0) rn"
          unfolding rn by (rule sorted_wrt_mono_rel [rotated]) simp
        have "filter P (rn @ rest2) = filter P xs"
          if eq: "\<forall>x\<in>S. \<forall>y\<in>S. P x \<and> P y \<longrightarrow> cmp x y = 0"
        proof -
          have "\<forall>x\<in>set (x0 # x1 # r). \<forall>y\<in>set (x0 # x1 # r). P x \<and> P y \<longrightarrow> \<not> cmp y x < 0"
          proof (intro ballI impI)
            fix x y assume "x \<in> set (x0 # x1 # r)" "y \<in> set (x0 # x1 # r)" "P x \<and> P y"
            with m rS have "x \<in> S" "y \<in> S" by auto
            with eq \<open>P x \<and> P y\<close> have "cmp y x = 0" by blast
            then show "\<not> cmp y x < 0" by simp
          qed
          from filter_rev_strict [OF d this]
          have "filter P (rev (x0 # x1 # r)) = filter P (x0 # x1 # r)" .
          then have "filter P (rev (x0 # x1 # r) @ q) = filter P ((x0 # x1 # r) @ q)"
            by (simp only: filter_append)
          with rn q xs rest show ?thesis by simp
        qed
        with s show ?thesis by blast
      next
        case False
        with cr rq xs have rn: "rn = x0 # x1 # r" and q: "rest2 = q"
          by (simp_all add: CountAndMakeRun_def Let_def)
        from rq False have "take_run cmp False x1 rest = (r, q)" by simp
        from take_run_asc_sorted [OF c this m(2,3)]
        have a1: "sorted_wrt (\<lambda>x y. cmp x y \<le> 0) (x1 # r)" .
        from False have "0 \<le> cmp x1 x0" by simp
        then have x01: "cmp x0 x1 \<le> 0" by (rule consistent_ge_le [OF c m(2) m(1)])
        have "cmp x0 e \<le> 0" if "e \<in> set r" for e
        proof -
          from a1 that have "cmp x1 e \<le> 0" by simp
          with x01 show ?thesis
            using consistent_trans [OF c m(1) m(2), of e] rS that by blast
        qed
        with x01 a1 have "sorted_wrt (\<lambda>x y. cmp x y \<le> 0) rn" unfolding rn by simp
        moreover from rn q xs rest have "rn @ rest2 = xs" by simp
        ultimately show ?thesis by simp
      qed
    qed
  qed
  then show "sorted_wrt (\<lambda>x y. cmp x y \<le> 0) rn"
    and "\<forall>x\<in>S. \<forall>y\<in>S. P x \<and> P y \<longrightarrow> cmp x y = 0 \<Longrightarrow> filter P (rn @ rest2) = filter P xs"
    by blast+
qed

lemma BinaryInsertionSort_mset:
  "mset (BinaryInsertionSort cmp rn rest2) = mset rn + mset rest2"
  unfolding BinaryInsertionSort_def
  by (induction rest2 arbitrary: rn) (simp_all add: binary_insert_mset)

lemma BinaryInsertionSort_consistent:
  assumes c: "consistent cmp S"
  shows "set rn \<subseteq> S \<Longrightarrow> set rest2 \<subseteq> S \<Longrightarrow> sorted_wrt (\<lambda>x y. cmp x y \<le> 0) rn \<Longrightarrow>
         sorted_wrt (\<lambda>x y. cmp x y \<le> 0) (BinaryInsertionSort cmp rn rest2) \<and>
         ((\<forall>x\<in>S. \<forall>y\<in>S. P x \<and> P y \<longrightarrow> cmp x y = 0) \<longrightarrow>
            filter P (BinaryInsertionSort cmp rn rest2) = filter P (rn @ rest2))"
proof (induction rest2 arbitrary: rn)
  case Nil
  then show ?case by (simp add: BinaryInsertionSort_def)
next
  case (Cons pivot rest)
  from Cons.prems have piv: "pivot \<in> S" and rest: "set rest \<subseteq> S" by simp_all
  note bi = binary_insert_consistent [OF c piv Cons.prems(1) Cons.prems(3)]
  have sub: "set (binary_insert cmp rn pivot) \<subseteq> S"
    using Cons.prems(1) piv by (simp add: binary_insert_set)
  from Cons.IH [OF sub rest bi(1)]
  have ih: "sorted_wrt (\<lambda>x y. cmp x y \<le> 0) (BinaryInsertionSort cmp (binary_insert cmp rn pivot) rest)"
    "(\<forall>x\<in>S. \<forall>y\<in>S. P x \<and> P y \<longrightarrow> cmp x y = 0) \<longrightarrow>
       filter P (BinaryInsertionSort cmp (binary_insert cmp rn pivot) rest)
         = filter P (binary_insert cmp rn pivot @ rest)"
    by blast+
  have unf: "BinaryInsertionSort cmp rn (pivot # rest)
      = BinaryInsertionSort cmp (binary_insert cmp rn pivot) rest"
    by (simp add: BinaryInsertionSort_def)
  have "filter P (BinaryInsertionSort cmp rn (pivot # rest)) = filter P (rn @ pivot # rest)"
    if eq: "\<forall>x\<in>S. \<forall>y\<in>S. P x \<and> P y \<longrightarrow> cmp x y = 0"
  proof -
    from ih(2) eq have "filter P (BinaryInsertionSort cmp rn (pivot # rest))
        = filter P (binary_insert cmp rn pivot) @ filter P rest"
      unfolding unf by simp
    also from bi(2) [OF eq] have "\<dots> = filter P (rn @ [pivot]) @ filter P rest" by simp
    finally show ?thesis by simp
  qed
  with ih(1) show ?case unfolding unf by blast
qed

lemma array_sort_mset: "mset (array_sort cmp xs) = mset xs"
proof (cases "length xs < 2")
  case True
  then show ?thesis by (simp add: array_sort_def)
next
  case False
  obtain r q where rq: "CountAndMakeRun cmp xs = (r, q)" by (cases "CountAndMakeRun cmp xs")
  with False CountAndMakeRun_mset [OF rq] show ?thesis
    by (simp add: array_sort_def BinaryInsertionSort_mset)
qed

lemma array_sort_set: "set (array_sort cmp xs) = set xs"
  using array_sort_mset [of cmp xs] by (rule mset_eq_setD)

lemma array_sort_consistent:
  assumes c: "consistent cmp (set xs)"
  shows "sorted_wrt (\<lambda>x y. cmp x y \<le> 0) (array_sort cmp xs)"
    and "\<forall>x\<in>set xs. \<forall>y\<in>set xs. P x \<and> P y \<longrightarrow> cmp x y = 0 \<Longrightarrow>
         filter P (array_sort cmp xs) = filter P xs"
proof -
  have "sorted_wrt (\<lambda>x y. cmp x y \<le> 0) (array_sort cmp xs) \<and>
        ((\<forall>x\<in>set xs. \<forall>y\<in>set xs. P x \<and> P y \<longrightarrow> cmp x y = 0) \<longrightarrow>
           filter P (array_sort cmp xs) = filter P xs)"
  proof (cases "length xs < 2")
    case True
    then have "xs = [] \<or> (\<exists>x. xs = [x])"
      by (cases xs) (auto simp: length_Suc_conv)
    then have "sorted_wrt (\<lambda>x y. cmp x y \<le> 0) xs" by auto
    with True show ?thesis by (simp add: array_sort_def)
  next
    case False
    obtain r q where rq: "CountAndMakeRun cmp xs = (r, q)" by (cases "CountAndMakeRun cmp xs")
    from CountAndMakeRun_mset [OF rq] have "set r \<union> set q = set xs"
      by (metis set_mset_mset set_mset_union)
    then have rS: "set r \<subseteq> set xs" and qS: "set q \<subseteq> set xs" by blast+
    note run = CountAndMakeRun_consistent [OF c rq subset_refl]
    from BinaryInsertionSort_consistent [OF c rS qS run(1), of P]
    have "sorted_wrt (\<lambda>x y. cmp x y \<le> 0) (BinaryInsertionSort cmp r q)"
      "(\<forall>x\<in>set xs. \<forall>y\<in>set xs. P x \<and> P y \<longrightarrow> cmp x y = 0) \<longrightarrow>
         filter P (BinaryInsertionSort cmp r q) = filter P (r @ q)"
      by blast+
    moreover have v: "array_sort cmp xs = BinaryInsertionSort cmp r q"
      using False rq by (simp add: array_sort_def)
    ultimately show ?thesis using run(2) [of P] by simp
  qed
  then show "sorted_wrt (\<lambda>x y. cmp x y \<le> 0) (array_sort cmp xs)"
    and "\<forall>x\<in>set xs. \<forall>y\<in>set xs. P x \<and> P y \<longrightarrow> cmp x y = 0 \<Longrightarrow>
         filter P (array_sort cmp xs) = filter P xs"
    by blast+
qed

text \<open>
  Null placement needs less than consistency: a comparator that is never negative on a
  null-keyed first argument and always negative on a defined first and a null-keyed second
  argument.
\<close>

lemma sorted_wrt_none:
  "\<forall>x\<in>set l. \<not> N x \<Longrightarrow> sorted_wrt (\<lambda>a b. N b \<longrightarrow> N a) (x0 # l)"
  by (induction l) auto

lemma take_run_asc_nulls_last:
  assumes B: "\<forall>x y. \<not> N x \<and> N y \<longrightarrow> cmp x y < 0"
  shows "take_run cmp False prev xs = (rn, rest2) \<Longrightarrow> sorted_wrt (\<lambda>a b. N a \<longrightarrow> N b) (prev # rn)"
proof (induction xs arbitrary: prev rn rest2)
  case Nil
  then show ?case by simp
next
  case (Cons cur rest)
  obtain r q where rq: "take_run cmp False cur rest = (r, q)"
    by (cases "take_run cmp False cur rest")
  show ?case
  proof (cases "cmp cur prev < 0")
    case True
    with Cons.prems show ?thesis by simp
  next
    case False
    with Cons.prems rq have rn: "rn = cur # r" by (simp add: Let_def)
    from Cons.IH [OF rq] have ih: "sorted_wrt (\<lambda>a b. N a \<longrightarrow> N b) (cur # r)" .
    from False B have step: "N prev \<longrightarrow> N cur" by blast
    have "\<forall>e\<in>set (cur # r). N prev \<longrightarrow> N e"
    proof (intro ballI impI)
      fix e assume e: "e \<in> set (cur # r)" and "N prev"
      with step have "N cur" by blast
      with ih e show "N e" by (cases "e = cur") auto
    qed
    with ih show ?thesis
      unfolding rn by (intro sorted_wrt.simps(2) [THEN iffD2]) blast
  qed
qed

lemma take_run_desc_defined:
  assumes A: "\<forall>x y. N x \<longrightarrow> \<not> cmp x y < 0"
  shows "take_run cmp True prev xs = (rn, rest2) \<Longrightarrow> \<forall>e\<in>set rn. \<not> N e"
proof (induction xs arbitrary: prev rn rest2)
  case Nil
  then show ?case by simp
next
  case (Cons cur rest)
  obtain r q where rq: "take_run cmp True cur rest = (r, q)"
    by (cases "take_run cmp True cur rest")
  show ?case
  proof (cases "0 \<le> cmp cur prev")
    case True
    with Cons.prems show ?thesis by simp
  next
    case False
    with Cons.prems rq have rn: "rn = cur # r" by (simp add: Let_def)
    from False have "cmp cur prev < 0" by simp
    with A have "\<not> N cur" by blast
    with Cons.IH [OF rq] show ?thesis unfolding rn by simp
  qed
qed

lemma CountAndMakeRun_nulls_last:
  assumes A: "\<forall>x y. N x \<longrightarrow> \<not> cmp x y < 0"
      and B: "\<forall>x y. \<not> N x \<and> N y \<longrightarrow> cmp x y < 0"
      and cr: "CountAndMakeRun cmp xs = (rn, rest2)"
  shows "sorted_wrt (\<lambda>a b. N a \<longrightarrow> N b) rn"
proof (cases xs)
  case Nil
  with cr show ?thesis by (simp add: CountAndMakeRun_def)
next
  case (Cons x0 ys)
  show ?thesis
  proof (cases ys)
    case Nil
    with Cons cr have "rn = [x0]" by (simp add: CountAndMakeRun_def)
    then show ?thesis by simp
  next
    case (Cons x1 rest)
    with \<open>xs = x0 # ys\<close> have xs: "xs = x0 # x1 # rest" by simp
    obtain r q where rq: "take_run cmp (cmp x1 x0 < 0) x1 rest = (r, q)"
      by (cases "take_run cmp (cmp x1 x0 < 0) x1 rest")
    show ?thesis
    proof (cases "cmp x1 x0 < 0")
      case True
      with cr rq xs have rn: "rn = rev (x0 # x1 # r)" by (simp add: CountAndMakeRun_def Let_def)
      from rq True have "take_run cmp True x1 rest = (r, q)" by simp
      from take_run_desc_defined [OF A this] have "\<forall>e\<in>set r. \<not> N e" .
      moreover from True A have "\<not> N x1" by blast
      ultimately have "\<forall>e\<in>set (x1 # r). \<not> N e" by simp
      then have "sorted_wrt (\<lambda>a b. N b \<longrightarrow> N a) (x0 # x1 # r)" by (rule sorted_wrt_none)
      then show ?thesis unfolding rn by (simp only: sorted_wrt_rev)
    next
      case False
      with cr rq xs have rn: "rn = x0 # x1 # r" by (simp add: CountAndMakeRun_def Let_def)
      from rq False have "take_run cmp False x1 rest = (r, q)" by simp
      from take_run_asc_nulls_last [OF B this]
      have t: "sorted_wrt (\<lambda>a b. N a \<longrightarrow> N b) (x1 # r)" .
      from False B have step: "N x0 \<longrightarrow> N x1" by blast
      have "\<forall>e\<in>set (x1 # r). N x0 \<longrightarrow> N e"
      proof (intro ballI impI)
        fix e assume e: "e \<in> set (x1 # r)" and "N x0"
        with step have "N x1" by blast
        with t e show "N e" by (cases "e = x1") auto
      qed
      with t show ?thesis unfolding rn by (intro sorted_wrt.simps(2) [THEN iffD2]) blast
    qed
  qed
qed

lemma binary_insert_nulls_last:
  assumes A: "\<forall>x y. N x \<longrightarrow> \<not> cmp x y < 0"
      and B: "\<forall>x y. \<not> N x \<and> N y \<longrightarrow> cmp x y < 0"
      and srt: "sorted_wrt (\<lambda>a b. N a \<longrightarrow> N b) a"
  shows "sorted_wrt (\<lambda>a b. N a \<longrightarrow> N b) (binary_insert cmp a pivot)"
proof -
  define p where "p = find_insertion_point cmp pivot a 0 (length a)"
  from find_insertion_point_boundary [of 0 "length a" a cmp pivot]
  have le: "p \<le> length a"
    and lo: "p = 0 \<or> \<not> cmp pivot (a ! (p - 1)) < 0"
    and hi: "p = length a \<or> cmp pivot (a ! p) < 0"
    by (simp_all add: p_def)
  have shape: "binary_insert cmp a pivot = take p a @ pivot # drop p a"
    by (simp add: binary_insert_def p_def Let_def)
  from srt have "sorted_wrt (\<lambda>a b. N a \<longrightarrow> N b) (take p a @ drop p a)" by simp
  then have parts: "sorted_wrt (\<lambda>a b. N a \<longrightarrow> N b) (take p a)"
    "sorted_wrt (\<lambda>a b. N a \<longrightarrow> N b) (drop p a)"
    "\<forall>x\<in>set (take p a). \<forall>y\<in>set (drop p a). N x \<longrightarrow> N y"
    unfolding sorted_wrt_append by blast+
  show ?thesis
  proof (cases "N pivot")
    case True
    with A hi have "p = length a" by blast
    with True parts(1) show ?thesis unfolding shape by (simp add: sorted_wrt_append)
  next
    case False
    have "\<not> N x" if "x \<in> set (take p a)" for x
    proof
      assume nx: "N x"
      from that obtain i where i: "i < p" "i < length a" "x = a ! i"
        by (auto simp: in_set_conv_nth)
      with lo have last: "\<not> cmp pivot (a ! (p - 1)) < 0" by auto
      with B False have nl: "\<not> N (a ! (p - 1))" by blast
      show False
      proof (cases "i = p - 1")
        case True
        with nx i nl show False by simp
      next
        case False
        with i le have "i < p - 1" "p - 1 < length a" by simp_all
        with srt have "N (a ! i) \<longrightarrow> N (a ! (p - 1))" by (simp add: sorted_wrt_iff_nth_less)
        with nx i nl show False by simp
      qed
    qed
    with False parts show ?thesis unfolding shape by (simp add: sorted_wrt_append)
  qed
qed

lemma BinaryInsertionSort_nulls_last:
  assumes A: "\<forall>x y. N x \<longrightarrow> \<not> cmp x y < 0"
      and B: "\<forall>x y. \<not> N x \<and> N y \<longrightarrow> cmp x y < 0"
  shows "sorted_wrt (\<lambda>a b. N a \<longrightarrow> N b) rn \<Longrightarrow>
         sorted_wrt (\<lambda>a b. N a \<longrightarrow> N b) (BinaryInsertionSort cmp rn rest2)"
proof (induction rest2 arbitrary: rn)
  case Nil
  then show ?case by (simp add: BinaryInsertionSort_def)
next
  case (Cons pivot rest)
  have unf: "BinaryInsertionSort cmp rn (pivot # rest)
      = BinaryInsertionSort cmp (binary_insert cmp rn pivot) rest"
    by (simp add: BinaryInsertionSort_def)
  from Cons.IH [OF binary_insert_nulls_last [OF A B Cons.prems]] show ?case unfolding unf .
qed

lemma array_sort_nulls_last:
  assumes A: "\<forall>x y. N x \<longrightarrow> \<not> cmp x y < 0"
      and B: "\<forall>x y. \<not> N x \<and> N y \<longrightarrow> cmp x y < 0"
  shows "sorted_wrt (\<lambda>a b. N a \<longrightarrow> N b) (array_sort cmp xs)"
proof (cases "length xs < 2")
  case True
  then have "xs = [] \<or> (\<exists>x. xs = [x])" by (cases xs) (auto simp: length_Suc_conv)
  then have "sorted_wrt (\<lambda>a b. N a \<longrightarrow> N b) xs" by auto
  with True show ?thesis by (simp add: array_sort_def)
next
  case False
  obtain r q where rq: "CountAndMakeRun cmp xs = (r, q)" by (cases "CountAndMakeRun cmp xs")
  from BinaryInsertionSort_nulls_last [OF A B CountAndMakeRun_nulls_last [OF A B rq], of q]
  show ?thesis using False rq by (simp add: array_sort_def)
qed


lemma consistent_zero_sym:
  assumes c: "consistent cmp S" and m: "a \<in> S" "b \<in> S" and z: "cmp a b = 0"
  shows "cmp b a = 0"
  using consistent_anti [OF c m] consistent_anti [OF c m(2) m(1)] z by simp


section \<open>The comparators and the sort stage\<close>



lemma useSort_comparator_defined_nullish:
  "\<not> nullish (field a k) \<Longrightarrow> nullish (field b k) \<Longrightarrow> useSort_comparator lt cfg k a b = - 1"
  by (auto simp: useSort_comparator_def nullish_def Let_def)




lemma indexed_sorted: "sorted_wrt (\<lambda>a b. snd a < snd b) (zip arr (map int [0..<length arr]))"
  by (simp add: sorted_wrt_iff_nth_less)





lemma useSort_comparator_nullish_nonneg:
  "nullish (field a k) \<Longrightarrow> \<not> useSort_comparator lt cfg k a b < 0"
  by (simp add: useSort_comparator_def nullish_def Let_def)



lemma useSort_sortedData_nulls_last:
  assumes "key cfg = Some k" "k \<noteq> []"
  shows "sorted_wrt (\<lambda>a b. nullish (field a k) \<longrightarrow> nullish (field b k))
           (useSort_sortedData lt rows cfg)"
proof -
  have "sorted_wrt (\<lambda>a b. nullish (field a k) \<longrightarrow> nullish (field b k))
          (array_sort (useSort_comparator lt cfg k) rows)"
  proof (rule array_sort_nulls_last)
    show "\<forall>x y. nullish (field x k) \<longrightarrow> \<not> useSort_comparator lt cfg k x y < 0"
      by (simp add: useSort_comparator_nullish_nonneg)
    show "\<forall>x y. \<not> nullish (field x k) \<and> nullish (field y k) \<longrightarrow> useSort_comparator lt cfg k x y < 0"
      by (simp add: useSort_comparator_defined_nullish)
  qed
  with assms show ?thesis by (simp add: useSort_sortedData_def)
qed

lemma sortedData_sorted:
  assumes "key cfg = Some k" "k \<noteq> []" "consistent (comparator lc cfg k) (set rows)"
  shows "sorted_wrt (\<lambda>a b. comparator lc cfg k a b \<le> 0) (sortedData lc rows cfg)"
  using assms array_sort_consistent(1) [of "comparator lc cfg k" rows]
  by (simp add: sortedData_def)








section \<open>Pagination and the state machine\<close>

lemma totalPages_ge_1: "1 \<le> totalPages xs ps"
  by (simp add: totalPages_def)

lemma sorted_of_currentPage: "sorted_of lc P (s\<lparr>currentPage := n\<rparr>) = sorted_of lc P s"
  by (simp add: sorted_of_def)

lemma totalPages_of_currentPage: "totalPages_of lc P (s\<lparr>currentPage := n\<rparr>) = totalPages_of lc P s"
  by (simp add: totalPages_of_def sorted_of_def)

lemma totalPages_of_ge_1: "1 \<le> totalPages_of lc P s"
  by (simp add: totalPages_of_def totalPages_ge_1)

lemma getPageNumbers_range: "n \<in> set (getPageNumbers tp sp) \<Longrightarrow> 1 \<le> n \<and> n \<le> tp"
  by (auto simp: getPageNumbers_def Let_def split: if_splits)

lemma handle_page_in_range:
  assumes "1 \<le> currentPage s" "currentPage s \<le> totalPages_of lc P s"
  shows "1 \<le> currentPage (handle lc P s e) \<and>
         currentPage (handle lc P s e) \<le> totalPages_of lc P (handle lc P s e)"
proof (cases e)
  case (FilterInput v)
  then show ?thesis by (simp add: handle_def Let_def handleFilterChange_def totalPages_of_ge_1)
next
  case (HeaderClick col)
  with assms show ?thesis by (simp add: handle_def Let_def handleSort_def totalPages_of_ge_1)
next
  case (HeaderKeyDown col pressed)
  with assms show ?thesis by (simp add: handle_def Let_def handleSort_def totalPages_of_ge_1)
next
  case (PageSizeSelect n)
  with assms show ?thesis by (simp add: handle_def Let_def handlePageSizeChange_def totalPages_of_ge_1)
next
  case FirstPage
  with assms show ?thesis by (simp add: handle_def Let_def totalPages_of_currentPage totalPages_of_ge_1)
next
  case PrevPage
  with assms show ?thesis by (simp add: handle_def Let_def totalPages_of_currentPage)
next
  case (PageNumber n)
  with assms getPageNumbers_range [of n "totalPages_of lc P s" "safePage_of lc P s"]
  show ?thesis by (simp add: handle_def Let_def totalPages_of_currentPage)
next
  case NextPage
  with assms show ?thesis by (simp add: handle_def Let_def totalPages_of_currentPage)
next
  case LastPage
  with assms show ?thesis by (simp add: handle_def Let_def totalPages_of_currentPage totalPages_of_ge_1)
qed

lemma handle_pageSize_positive:
  assumes "valid_props P" "0 < pageSize s"
  shows "0 < pageSize (handle lc P s e)"
proof (cases e)
  case (PageSizeSelect n)
  with assms show ?thesis
    by (auto simp: handle_def Let_def handlePageSizeChange_def valid_props_def list_all_iff)
qed (use assms in \<open>simp_all add: handle_def Let_def handleSort_def handleFilterChange_def\<close>)

lemma run_page_in_range:
  "1 \<le> currentPage s \<Longrightarrow> currentPage s \<le> totalPages_of lc P s \<Longrightarrow>
   1 \<le> currentPage (run lc P s es) \<and>
   currentPage (run lc P s es) \<le> totalPages_of lc P (run lc P s es)"
proof (induction es arbitrary: s)
  case Nil
  then show ?case by simp
next
  case (Cons e es)
  from handle_page_in_range [OF Cons.prems, of e] Cons.IH [of "handle lc P s e"]
  show ?case by simp
qed

lemma run_pageSize_positive:
  "valid_props P \<Longrightarrow> 0 < pageSize s \<Longrightarrow> 0 < pageSize (run lc P s es)"
  by (induction es arbitrary: s) (simp_all add: handle_pageSize_positive)

lemma initial_page: "currentPage (initial P) = 1"
  by (simp add: initial_def)

lemma safePage_of_in_range:
  "currentPage s \<le> totalPages_of lc P s \<Longrightarrow> safePage_of lc P s = currentPage s"
  by (simp add: safePage_of_def safePage_def totalPages_of_def)

lemma handle_sort_key:
  assumes "key (sortConfig s) = None \<or>
           (\<exists>c\<in>set (columns P). sortable c = Some True \<and> key (sortConfig s) = Some (ckey c))"
  shows "key (sortConfig (handle lc P s e)) = None \<or>
         (\<exists>c\<in>set (columns P). sortable c = Some True \<and>
            key (sortConfig (handle lc P s e)) = Some (ckey c))"
proof (cases e)
  case (HeaderClick col)
  with assms show ?thesis by (auto simp: handle_def Let_def handleSort_def)
next
  case (HeaderKeyDown col pressed)
  with assms show ?thesis by (auto simp: handle_def Let_def handleSort_def)
qed (use assms in \<open>simp_all add: handle_def Let_def handleFilterChange_def handlePageSizeChange_def\<close>)

lemma run_sort_key:
  "key (sortConfig s) = None \<or>
     (\<exists>c\<in>set (columns P). sortable c = Some True \<and> key (sortConfig s) = Some (ckey c)) \<Longrightarrow>
   key (sortConfig (run lc P s es)) = None \<or>
     (\<exists>c\<in>set (columns P). sortable c = Some True \<and>
        key (sortConfig (run lc P s es)) = Some (ckey c))"
proof (induction es arbitrary: s)
  case Nil
  then show ?case by simp
next
  case (Cons e es)
  from Cons.IH [OF handle_sort_key [OF Cons.prems, of lc e]] show ?case by simp
qed

lemma slice_window:
  assumes "0 \<le> start" "0 \<le> n"
  shows "slice xs start (start + n) = take (nat n) (drop (nat start) xs)"
proof (cases "start \<le> int (length xs)")
  case True
  with assms have "slice xs start (start + n)
      = take (nat (min (start + n) (int (length xs)) - start)) (drop (nat start) xs)"
    by (simp add: slice_def Let_def min_def)
  also have "\<dots> = take (min (nat n) (length (drop (nat start) xs))) (drop (nat start) xs)"
    using True assms by (intro arg_cong2 [where f = take]) (auto simp: min_def)
  also have "\<dots> = take (nat n) (drop (nat start) xs)"
    by (simp add: min_def)
  finally show ?thesis .
next
  case False
  with assms show ?thesis by (simp add: slice_def Let_def min_def)
qed

lemma paginatedData_window:
  assumes "0 < ps" "1 \<le> cp"
  shows "paginatedData xs cp ps = take (nat ps) (drop (nat ((safePage xs cp ps - 1) * ps)) xs)"
proof -
  have "1 \<le> safePage xs cp ps" using assms totalPages_ge_1 [of xs ps] by (simp add: safePage_def)
  with assms have "0 \<le> (safePage xs cp ps - 1) * ps" by simp
  with assms show ?thesis by (simp add: paginatedData_def Let_def slice_window)
qed

lemma safePage_clamp: "1 \<le> cp \<Longrightarrow> safePage xs cp ps = max 1 (min cp (totalPages xs ps))"
  using totalPages_ge_1 [of xs ps] by (simp add: safePage_def)

lemma safePage_bounds:
  "1 \<le> cp \<Longrightarrow> 1 \<le> safePage xs cp ps \<and> safePage xs cp ps \<le> totalPages xs ps"
  using totalPages_ge_1 [of xs ps] by (simp add: safePage_def)

lemma goToPage_in_range: "1 \<le> goToPage xs ps page \<and> goToPage xs ps page \<le> totalPages xs ps"
  using totalPages_ge_1 [of xs ps] by (simp add: goToPage_def)

section \<open>Concrete runs\<close>

lemma demo_last_page:
  "run codeunit_compare demo_props (initial demo_props) [LastPage]
     = (initial demo_props)\<lparr>currentPage := 3\<rparr>"
  by (simp add: eval_defs)

lemma demo_last_page_then_filter:
  "run codeunit_compare demo_props (initial demo_props) [LastPage, FilterInput ''alice'']
     = (initial demo_props)\<lparr>filterText := ''alice'', currentPage := 1\<rparr>"
  by (simp add: eval_defs)

lemma demo_filtered_view:
  "totalPages_of codeunit_compare demo_props
     ((initial demo_props)\<lparr>filterText := ''alice'', currentPage := 1\<rparr>) = 1 \<and>
   paginatedData_of codeunit_compare demo_props
     ((initial demo_props)\<lparr>filterText := ''alice'', currentPage := 1\<rparr>)
     = [[(''id'', Num 1), (''name'', Str ''Alice''), (''dept'', Null)]]"
  by (simp add: eval_defs)






section \<open>Claims about the filter stage\<close>

text \<open>
  Claim C1, as the code has it. For a query that is empty after trimming, \<^verbatim>\<open>filteredData\<close>
  returns its input. Otherwise the search term of v4 is the case-folded query with its
  surrounding white space removed, and a row whose column values are all defined is in the
  output exactly when it is an input row and the case-folded string of one of its column
  values contains that search term as a contiguous block. A row with a null or undefined
  column value is still in the output when one of its defined column values contains the
  search term, and every output row is an input row. (Whether a null or undefined value can
  itself match is the subject of claim C4.)
\<close>

theorem filter_membership:
  "(trim q = [] \<longrightarrow> filteredData rows cols q = rows) \<and>
   (trim q \<noteq> [] \<and> (\<forall>c\<in>set cols. \<not> nullish (field r (ckey c))) \<longrightarrow>
      (r \<in> set (filteredData rows cols q) \<longleftrightarrow>
         r \<in> set rows \<and>
         (\<exists>c\<in>set cols. \<exists>u v.
            toLowerCase (js_String (field r (ckey c))) = u @ trim (toLowerCase q) @ v))) \<and>
   (trim q \<noteq> [] \<and> r' \<in> set rows \<and>
    (\<exists>c\<in>set cols. \<not> nullish (field r' (ckey c)) \<and>
       (\<exists>u v. toLowerCase (js_String (field r' (ckey c))) = u @ trim (toLowerCase q) @ v)) \<longrightarrow>
      r' \<in> set (filteredData rows cols q)) \<and>
   (r' \<in> set (filteredData rows cols q) \<longrightarrow> r' \<in> set rows)"
proof (intro conjI impI)
  assume "trim q = []"
  then show "filteredData rows cols q = rows" by (rule filteredData_blank)
next
  assume "trim q \<noteq> [] \<and> (\<forall>c\<in>set cols. \<not> nullish (field r (ckey c)))"
  then show "r \<in> set (filteredData rows cols q) \<longleftrightarrow>
         r \<in> set rows \<and>
         (\<exists>c\<in>set cols. \<exists>u v.
            toLowerCase (js_String (field r (ckey c))) = u @ trim (toLowerCase q) @ v)"
    by (simp add: filteredData_member)
next
  assume "trim q \<noteq> [] \<and> r' \<in> set rows \<and>
    (\<exists>c\<in>set cols. \<not> nullish (field r' (ckey c)) \<and>
       (\<exists>u v. toLowerCase (js_String (field r' (ckey c))) = u @ trim (toLowerCase q) @ v))"
  then show "r' \<in> set (filteredData rows cols q)"
    using filteredData_member [of q r' rows cols] by blast
next
  assume "r' \<in> set (filteredData rows cols q)"
  then show "r' \<in> set rows" by (simp add: filteredData_def split: if_splits)
qed

theorem filter_membership_witness:
  "trim ''ALI '' \<noteq> [] \<and>
   \<not> nullish (field [(''name'', Str ''Alice'')] ''name'') \<and>
   [(''name'', Str ''Alice'')] \<in> set (filteredData
      [[(''name'', Str ''Alice'')], [(''name'', Str ''Bob'')]]
      [\<lparr>ckey = ''name'', header = ''Name'', sortable = Some True\<rparr>] ''ALI '') \<and>
   toLowerCase (js_String (field [(''name'', Str ''Alice'')] ''name'')) = [] @ trim (toLowerCase ''ALI '') @ ''ce'' \<and>
   trim ''  '' = [] \<and>
   filteredData [[(''name'', Str ''Alice'')], [(''name'', Str ''Bob'')]]
      [\<lparr>ckey = ''name'', header = ''Name'', sortable = Some True\<rparr>] ''  ''
     = [[(''name'', Str ''Alice'')], [(''name'', Str ''Bob'')]] \<and>
   nullish (field (data demo_props ! 0) ''dept'') \<and>
   \<not> nullish (field (data demo_props ! 0) ''name'') \<and>
   data demo_props ! 0 \<in> set (data demo_props) \<and>
   data demo_props ! 0 \<in> set (filteredData (data demo_props) (columns demo_props) ''ALI '')"
  using filter_membership [where q = "''ALI ''" and r = "[(''name'', Str ''Alice'')]"
      and rows = "[[(''name'', Str ''Alice'')], [(''name'', Str ''Bob'')]]"
      and cols = "[\<lparr>ckey = ''name'', header = ''Name'', sortable = Some True\<rparr>]"]
    filter_membership [where q = "''  ''"
      and rows = "[[(''name'', Str ''Alice'')], [(''name'', Str ''Bob'')]]"
      and cols = "[\<lparr>ckey = ''name'', header = ''Name'', sortable = Some True\<rparr>]"]
    filter_membership [where q = "''ALI ''" and r' = "data demo_props ! 0"
      and rows = "data demo_props" and cols = "columns demo_props"]
  by (simp add: trim_def is_space_def toLowerCase_def lower_char_def field_def nullish_def
        filteredData_def demo_props_def)

text \<open>
  The claim without the trimming fails: the query \<^verbatim>\<open>"ali "\<close> is not empty after trimming,
  the row of Alice is returned, and \<^verbatim>\<open>"alice"\<close> does not contain \<^verbatim>\<open>"ali "\<close>.
\<close>

theorem filter_membership_counterexample:
  "trim ''ali '' \<noteq> [] \<and>
   [(''name'', Str ''Alice'')] \<in> set (filteredData [[(''name'', Str ''Alice'')]]
      [\<lparr>ckey = ''name'', header = ''Name'', sortable = Some True\<rparr>] ''ali '') \<and>
   \<not> js_includes (toLowerCase (js_String (field [(''name'', Str ''Alice'')] ''name'')))
         (toLowerCase ''ali '')"
  by (simp add: trim_def is_space_def toLowerCase_def lower_char_def field_def filteredData_def)

text \<open>
  Claim C4 says that a null or undefined field never contributes a match. The filters of v2
  and v3 return false for such a field (\<open>useFilter_skips_nullish\<close>,
  \<open>filterData_skips_nullish\<close>); the filter of v4 has lost that test and matches the
  string \<^verbatim>\<open>String(null)\<close>: the query \<^verbatim>\<open>"null"\<close> returns a row whose only filtered field
  is null.
\<close>

theorem filteredData_matches_null:
  "filteredData [[(''id'', Num 1), (''department'', Null)]]
     [\<lparr>ckey = ''department'', header = ''Department'', sortable = Some True\<rparr>] ''null''
   = [[(''id'', Num 1), (''department'', Null)]]"
  by (simp add: trim_def is_space_def toLowerCase_def lower_char_def field_def filteredData_def)

section \<open>Claims about the sort stage\<close>







section \<open>Claims about pagination and the state machine\<close>

text \<open>
  Claim C5: for props with positive page sizes, in the state reached from the initial state
  by any list of events the page size is positive and the page that is shown,
  \<^verbatim>\<open>safePage\<close>, lies between 1 and \<^verbatim>\<open>totalPages\<close>; the stored page lies in that range
  as well, so it is the page shown. Should the props change under a stored page (fewer
  rows), the page shown for the new props \<open>P'\<close> is still in range.
\<close>

theorem pagination_bounds:
  "valid_props P \<longrightarrow>
     0 < pageSize (run lc P (initial P) es) \<and>
     1 \<le> safePage_of lc P (run lc P (initial P) es) \<and>
     safePage_of lc P (run lc P (initial P) es) \<le> totalPages_of lc P (run lc P (initial P) es) \<and>
     safePage_of lc P (run lc P (initial P) es) = currentPage (run lc P (initial P) es) \<and>
     1 \<le> safePage_of lc P' (run lc P (initial P) es) \<and>
     safePage_of lc P' (run lc P (initial P) es) \<le> totalPages_of lc P' (run lc P (initial P) es)"
proof
  assume v: "valid_props P"
  have "1 \<le> currentPage (initial P)" "currentPage (initial P) \<le> totalPages_of lc P (initial P)"
    by (simp_all add: initial_page totalPages_of_ge_1)
  from run_page_in_range [OF this, of es]
  have r: "1 \<le> currentPage (run lc P (initial P) es)"
    "currentPage (run lc P (initial P) es) \<le> totalPages_of lc P (run lc P (initial P) es)"
    by simp_all
  from v have "0 < pageSize (initial P)" by (simp add: valid_props_def initial_def)
  with v have "0 < pageSize (run lc P (initial P) es)" by (rule run_pageSize_positive)
  moreover from r(1) have "1 \<le> safePage_of lc P' (run lc P (initial P) es) \<and>
     safePage_of lc P' (run lc P (initial P) es) \<le> totalPages_of lc P' (run lc P (initial P) es)"
    by (simp add: safePage_of_def totalPages_of_def safePage_bounds)
  ultimately show "0 < pageSize (run lc P (initial P) es) \<and>
     1 \<le> safePage_of lc P (run lc P (initial P) es) \<and>
     safePage_of lc P (run lc P (initial P) es) \<le> totalPages_of lc P (run lc P (initial P) es) \<and>
     safePage_of lc P (run lc P (initial P) es) = currentPage (run lc P (initial P) es) \<and>
     1 \<le> safePage_of lc P' (run lc P (initial P) es) \<and>
     safePage_of lc P' (run lc P (initial P) es) \<le> totalPages_of lc P' (run lc P (initial P) es)"
    using r safePage_of_in_range [OF r(2)] by simp
qed

theorem pagination_bounds_witness:
  "valid_props demo_props \<and>
   currentPage (run codeunit_compare demo_props (initial demo_props) [LastPage]) = 3 \<and>
   1 \<le> safePage_of codeunit_compare demo_props
     (run codeunit_compare demo_props (initial demo_props) [LastPage, FilterInput ''alice'']) \<and>
   safePage_of codeunit_compare demo_props
     (run codeunit_compare demo_props (initial demo_props) [LastPage, FilterInput ''alice''])
     \<le> totalPages_of codeunit_compare demo_props
     (run codeunit_compare demo_props (initial demo_props) [LastPage, FilterInput ''alice'']) \<and>
   totalPages_of codeunit_compare demo_props
     (run codeunit_compare demo_props (initial demo_props) [LastPage, FilterInput ''alice'']) = 1"
proof -
  have v: "valid_props demo_props" by (simp add: valid_props_def demo_props_def)
  have p: "currentPage (run codeunit_compare demo_props (initial demo_props) [LastPage]) = 3"
    by (simp only: demo_last_page) simp
  have t: "totalPages_of codeunit_compare demo_props
     (run codeunit_compare demo_props (initial demo_props) [LastPage, FilterInput ''alice'']) = 1"
    by (simp only: demo_last_page_then_filter demo_filtered_view)
  from pagination_bounds [of demo_props codeunit_compare "[LastPage, FilterInput ''alice'']" demo_props] v p t
  show ?thesis by blast
qed

text \<open>
  Claim C6: the three handlers \<^verbatim>\<open>handleFilterChange\<close>, \<^verbatim>\<open>handleSort\<close> and
  \<^verbatim>\<open>handlePageSizeChange\<close> store page 1 whatever the page was; a navigation event leaves
  the filter text, the sort state and the page size as they were; and every event that is not
  a navigation event either changes nothing (a gated header, an absent option) or stores
  page 1.
\<close>

theorem reset_and_frame:
  "currentPage (handleFilterChange s q) = 1 \<and>
   currentPage (handleSort s k) = 1 \<and>
   currentPage (handlePageSizeChange s n) = 1 \<and>
   (is_navigation e \<longrightarrow>
      filterText (handle lc P s e) = filterText s \<and>
      sortConfig (handle lc P s e) = sortConfig s \<and>
      pageSize (handle lc P s e) = pageSize s) \<and>
   (\<not> is_navigation e \<longrightarrow> handle lc P s e = s \<or> currentPage (handle lc P s e) = 1)"
  by (cases e)
     (simp_all add: handle_def Let_def is_navigation_def handleFilterChange_def handleSort_def
        handlePageSizeChange_def)

theorem reset_and_frame_witness:
  "is_navigation LastPage \<and>
   currentPage (handle codeunit_compare demo_props (initial demo_props) LastPage) = 3 \<and>
   filterText (handle codeunit_compare demo_props (initial demo_props) LastPage) = [] \<and>
   \<not> is_navigation (FilterInput ''bob'') \<and>
   currentPage (handle codeunit_compare demo_props
      (handle codeunit_compare demo_props (initial demo_props) LastPage) (FilterInput ''bob'')) = 1 \<and>
   currentPage (handleSort ((initial demo_props)\<lparr>currentPage := 3\<rparr>) ''name'') = 1 \<and>
   currentPage (handlePageSizeChange ((initial demo_props)\<lparr>currentPage := 3\<rparr>) 2) = 1"
  using reset_and_frame [of "(initial demo_props)\<lparr>currentPage := 3\<rparr>" "''bob''" "''name''" 2
      LastPage codeunit_compare demo_props]
    reset_and_frame [of "handle codeunit_compare demo_props (initial demo_props) LastPage" "''bob''"
      "''name''" 2 "FilterInput ''bob''" codeunit_compare demo_props]
  by (simp add: eval_defs)

text \<open>
  Claim C7: \<^verbatim>\<open>handleSort k\<close> on the active key \<open>k\<close> flips the direction and keeps the key;
  on any other state it makes \<open>k\<close> the key with the ascending direction; the key is never
  \<^verbatim>\<open>null\<close> afterwards; three calls on one key from the initial state give ascending,
  descending, ascending. The sort state is updated as by \<^verbatim>\<open>handleSort\<close> of v3.
\<close>

theorem toggle_transitions:
  "(key (sortConfig s) = Some k \<longrightarrow>
      sortConfig (handleSort s k) =
        \<lparr>key = Some k, direction = (if direction (sortConfig s) = Asc then Desc else Asc)\<rparr>) \<and>
   (key (sortConfig s) \<noteq> Some k \<longrightarrow>
      sortConfig (handleSort s k) = \<lparr>key = Some k, direction = Asc\<rparr>) \<and>
   key (sortConfig (handleSort s k)) = Some k \<and>
   sortConfig (handleSort (initial P) k) = \<lparr>key = Some k, direction = Asc\<rparr> \<and>
   sortConfig (handleSort (handleSort (initial P) k) k) = \<lparr>key = Some k, direction = Desc\<rparr> \<and>
   sortConfig (handleSort (handleSort (handleSort (initial P) k) k) k)
     = \<lparr>key = Some k, direction = Asc\<rparr> \<and>
   sortConfig (handleSort s k) = useSort_handleSort (sortConfig s) k"
  by (simp add: handleSort_def initial_def useSort_handleSort_def)

theorem toggle_transitions_witness:
  "key (sortConfig (handleSort (initial demo_props) ''name'')) = Some ''name'' \<and>
   direction (sortConfig (handleSort (handleSort (initial demo_props) ''name'') ''name'')) = Desc \<and>
   key (sortConfig (handleSort (handleSort (initial demo_props) ''name'') ''name'')) \<noteq> Some ''dept'' \<and>
   sortConfig (handleSort (handleSort (handleSort (initial demo_props) ''name'') ''name'') ''dept'')
     = \<lparr>key = Some ''dept'', direction = Asc\<rparr>"
  using toggle_transitions [of "handleSort (initial demo_props) ''name''" "''name''" demo_props]
    toggle_transitions [of "handleSort (handleSort (initial demo_props) ''name'') ''name''" "''dept''" demo_props]
  by (simp add: eval_defs useSort_handleSort_def)

text \<open>
  Claim C8: for a positive page size and a stored page of at least 1, the item count is the
  length of the row list, \<^verbatim>\<open>totalPages\<close> is the larger of 1 and the ceiling of the quotient,
  the effective page is the stored page clamped into \<open>[1, totalPages]\<close>, and the page rows are
  the \<open>pageSize\<close> rows that follow the first \<open>(effectivePage - 1) * pageSize\<close> rows. For the
  empty row list there is one page, the page shown is 1 and there are no page rows.
\<close>

theorem pagination_arithmetic:
  "0 < ps \<and> 1 \<le> cp \<longrightarrow>
     totalItems rows = int (length rows) \<and>
     totalPages rows ps = max 1 \<lceil>real (length rows) / real_of_int ps\<rceil> \<and>
     safePage rows cp ps = max 1 (min cp (totalPages rows ps)) \<and>
     paginatedData rows cp ps
       = take (nat ps) (drop (nat ((max 1 (min cp (totalPages rows ps)) - 1) * ps)) rows) \<and>
     totalPages [] ps = 1 \<and> safePage [] cp ps = 1 \<and> paginatedData [] cp ps = []"
proof
  assume a: "0 < ps \<and> 1 \<le> cp"
  then have "paginatedData rows cp ps
       = take (nat ps) (drop (nat ((max 1 (min cp (totalPages rows ps)) - 1) * ps)) rows)"
    using paginatedData_window [of ps cp rows] safePage_clamp [of cp rows ps] by simp
  moreover have "totalPages [] ps = 1" by (simp add: totalPages_def)
  moreover from a have "safePage [] cp ps = 1" by (simp add: safePage_def totalPages_def)
  moreover from a have "paginatedData [] cp ps = []"
    using paginatedData_window [of ps cp "[]"] by simp
  ultimately show "totalItems rows = int (length rows) \<and>
     totalPages rows ps = max 1 \<lceil>real (length rows) / real_of_int ps\<rceil> \<and>
     safePage rows cp ps = max 1 (min cp (totalPages rows ps)) \<and>
     paginatedData rows cp ps
       = take (nat ps) (drop (nat ((max 1 (min cp (totalPages rows ps)) - 1) * ps)) rows) \<and>
     totalPages [] ps = 1 \<and> safePage [] cp ps = 1 \<and> paginatedData [] cp ps = []"
    using a safePage_clamp [of cp rows ps] by (simp add: totalPages_def totalItems_def)
qed

theorem pagination_arithmetic_witness:
  "(0::int) < 5 \<and> (1::int) \<le> 3 \<and>
   totalPages [1, 2, 3, 4, 5, 6, 7, 8, 9, 10, 11, 12 :: nat] 5 = 3 \<and>
   safePage [1, 2, 3, 4, 5, 6, 7, 8, 9, 10, 11, 12 :: nat] 3 5 = 3 \<and>
   paginatedData [1, 2, 3, 4, 5, 6, 7, 8, 9, 10, 11, 12 :: nat] 3 5 = [11, 12] \<and>
   paginatedData ([] :: nat list) 3 5 = []"
  using pagination_arithmetic [of 5 3 "[1, 2, 3, 4, 5, 6, 7, 8, 9, 10, 11, 12 :: nat]"]
  by (simp add: totalPages_def safePage_def paginatedData_def slice_def)

text \<open>
  Claim C9, as the code has it. The page shown is the stored page clamped into
  \<open>[1, totalPages]\<close> (for a stored page of at least 1), and the slice is defined for every
  stored page. The derived values are functions of the state and return no state, so reading
  them stores nothing: the stored page changes only in a handler, and an event that is not a
  navigation event leaves it as it was or stores 1. A change of the filter text is such an
  event and stores 1.
\<close>

theorem clamp_on_read:
  "(1 \<le> currentPage s \<longrightarrow>
      safePage_of lc P s = max 1 (min (currentPage s) (totalPages_of lc P s))) \<and>
   (1 \<le> currentPage s \<and> 0 < pageSize s \<longrightarrow>
      paginatedData_of lc P s
        = take (nat (pageSize s))
            (drop (nat ((max 1 (min (currentPage s) (totalPages_of lc P s)) - 1) * pageSize s))
               (sorted_of lc P s))) \<and>
   (\<not> is_navigation e \<longrightarrow>
      currentPage (handle lc P s e) = currentPage s \<or> currentPage (handle lc P s e) = 1) \<and>
   currentPage (handle lc P s (FilterInput q)) = 1"
proof (intro conjI impI)
  assume "1 \<le> currentPage s"
  then show "safePage_of lc P s = max 1 (min (currentPage s) (totalPages_of lc P s))"
    by (simp add: safePage_of_def totalPages_of_def safePage_clamp)
next
  assume "1 \<le> currentPage s \<and> 0 < pageSize s"
  then show "paginatedData_of lc P s
        = take (nat (pageSize s))
            (drop (nat ((max 1 (min (currentPage s) (totalPages_of lc P s)) - 1) * pageSize s))
               (sorted_of lc P s))"
    using paginatedData_window [of "pageSize s" "currentPage s" "sorted_of lc P s"]
      safePage_clamp [of "currentPage s" "sorted_of lc P s" "pageSize s"]
    by (simp add: paginatedData_of_def totalPages_of_def)
next
  assume "\<not> is_navigation e"
  then show "currentPage (handle lc P s e) = currentPage s \<or> currentPage (handle lc P s e) = 1"
    by (cases e)
       (simp_all add: handle_def Let_def is_navigation_def handleFilterChange_def handleSort_def
          handlePageSizeChange_def)
next
  show "currentPage (handle lc P s (FilterInput q)) = 1"
    by (simp add: handle_def handleFilterChange_def)
qed

theorem clamp_on_read_witness:
  "(1::int) \<le> currentPage ((initial demo_props)\<lparr>currentPage := 7\<rparr>) \<and>
   0 < pageSize ((initial demo_props)\<lparr>currentPage := 7\<rparr>) \<and>
   totalPages_of codeunit_compare demo_props ((initial demo_props)\<lparr>currentPage := 7\<rparr>) = 3 \<and>
   safePage_of codeunit_compare demo_props ((initial demo_props)\<lparr>currentPage := 7\<rparr>) = 3 \<and>
   paginatedData_of codeunit_compare demo_props ((initial demo_props)\<lparr>currentPage := 7\<rparr>)
     = [[(''id'', Num 3), (''name'', Str ''Carol''), (''dept'', Undefined)]] \<and>
   \<not> is_navigation (HeaderClick \<lparr>ckey = ''dept'', header = ''Dept'', sortable = None\<rparr>) \<and>
   currentPage (handle codeunit_compare demo_props ((initial demo_props)\<lparr>currentPage := 7\<rparr>)
      (HeaderClick \<lparr>ckey = ''dept'', header = ''Dept'', sortable = None\<rparr>)) = 7 \<and>
   currentPage (handle codeunit_compare demo_props ((initial demo_props)\<lparr>currentPage := 7\<rparr>)
      (FilterInput ''carol'')) = 1"
  using clamp_on_read [of "(initial demo_props)\<lparr>currentPage := 7\<rparr>" codeunit_compare demo_props
      "HeaderClick \<lparr>ckey = ''dept'', header = ''Dept'', sortable = None\<rparr>" "''carol''"]
  by (simp add: eval_defs)

text \<open>
  The last part of the claim, that the stored page survives a shrink of \<^verbatim>\<open>totalPages\<close> that
  a filter causes, fails: on the last of three pages, typing \<^verbatim>\<open>alice\<close> leaves one page,
  and the stored page is no longer 3.
\<close>

theorem stored_page_survives_counterexample:
  "currentPage (run codeunit_compare demo_props (initial demo_props) [LastPage]) = 3 \<and>
   totalPages_of codeunit_compare demo_props
     (run codeunit_compare demo_props (initial demo_props) [LastPage]) = 3 \<and>
   totalPages_of codeunit_compare demo_props
     (handle codeunit_compare demo_props
        (run codeunit_compare demo_props (initial demo_props) [LastPage]) (FilterInput ''alice'')) = 1 \<and>
   currentPage
     (handle codeunit_compare demo_props
        (run codeunit_compare demo_props (initial demo_props) [LastPage]) (FilterInput ''alice''))
     \<noteq> currentPage (run codeunit_compare demo_props (initial demo_props) [LastPage])"
  by (simp add: eval_defs)

text \<open>
  Claim C10: in every state reached from the initial state the sort key is \<^verbatim>\<open>null\<close> or
  the key of a column of the props whose \<^verbatim>\<open>sortable\<close> flag is \<^verbatim>\<open>true\<close>: the click and the
  key press on a header both test the flag before they call \<^verbatim>\<open>handleSort\<close>.
\<close>

theorem sort_key_is_sortable:
  "key (sortConfig (run lc P (initial P) es)) = None \<or>
   (\<exists>c\<in>set (columns P). sortable c = Some True \<and>
      key (sortConfig (run lc P (initial P) es)) = Some (ckey c))"
  by (rule run_sort_key) (simp add: initial_def)

theorem sort_key_is_sortable_witness:
  "key (sortConfig (run codeunit_compare demo_props (initial demo_props)
      [HeaderClick \<lparr>ckey = ''dept'', header = ''Dept'', sortable = None\<rparr>])) = None \<and>
   key (sortConfig (run codeunit_compare demo_props (initial demo_props)
      [HeaderClick \<lparr>ckey = ''dept'', header = ''Dept'', sortable = None\<rparr>,
       HeaderKeyDown \<lparr>ckey = ''name'', header = ''Name'', sortable = Some True\<rparr> ''Enter''])) = Some ''name''"
  using sort_key_is_sortable [of codeunit_compare demo_props
      "[HeaderClick \<lparr>ckey = ''dept'', header = ''Dept'', sortable = None\<rparr>,
        HeaderKeyDown \<lparr>ckey = ''name'', header = ''Name'', sortable = Some True\<rparr> ''Enter'']"]
  by (simp add: eval_defs)

end
